theory Spec2Isabelle
  imports Main "HOL-Library.Multiset" "HOL-Library.Product_Lexorder"
begin

section \<open>Host interface\<close>

text \<open>
  The player class of \<^verbatim>\<open>AIEldar.cc\<close> derives from the game's \<^verbatim>\<open>Player\<close>, whose header is
  not part of the repository. What the player reads from it is collected in the record
  \<open>host\<close>: the board, the citizens, the round and the constants of the match. Positions are
  pairs of (row, column); \<^verbatim>\<open>Pos + Dir\<close> moves one cell, rows growing downwards, which is the
  convention \<^verbatim>\<open>build_board\<close> itself uses for the four neighbours of a cell.
\<close>

datatype Dir = Up | Down | Left | Right

datatype CellType = Street | Building

datatype BonusType = NoBonus | Money | Food

datatype WeaponType = NoWeapon | Hammer | Gun | Bazooka

datatype CitizenType = Warrior | Builder

type_synonym Pos = "int \<times> int"

record Cell =
  cell_type :: CellType
  cell_bonus :: BonusType
  cell_weapon :: WeaponType
  cell_id :: int
  cell_resistance :: int
  cell_b_owner :: int

record Citizen =
  cit_type :: CitizenType
  cit_weapon :: WeaponType
  cit_pos :: Pos
  cit_life :: int
  cit_player :: int

record host =
  board_rows :: int
  board_cols :: int
  cell :: "Pos \<Rightarrow> Cell"
  citizen :: "int \<Rightarrow> Citizen"
  me :: int
  cur_round :: int
  is_round_day :: "int \<Rightarrow> bool"
  life_lost_in_attack :: int
  builder_strength_demolish :: int
  hammer_strength_demolish :: int
  gun_strength_demolish :: int
  bazooka_strength_demolish :: int
  warrior_ini_life :: int
  builder_ini_life :: int
  max_num_barricades :: int
  barricade_max_resistance :: int

definition pos_ok :: "host \<Rightarrow> Pos \<Rightarrow> bool" where
  "pos_ok h p = (0 \<le> fst p \<and> fst p < board_rows h \<and> 0 \<le> snd p \<and> snd p < board_cols h)"

fun step :: "Pos \<Rightarrow> Dir \<Rightarrow> Pos" where
  "step (i, j) Up = (i - 1, j)"
| "step (i, j) Down = (i + 1, j)"
| "step (i, j) Left = (i, j - 1)"
| "step (i, j) Right = (i, j + 1)"

definition is_day :: "host \<Rightarrow> bool" where
  "is_day h = is_round_day h (cur_round h)"

definition is_night :: "host \<Rightarrow> bool" where
  "is_night h = (\<not> is_day h)"

definition is_round_night :: "host \<Rightarrow> int \<Rightarrow> bool" where
  "is_round_night h r = (\<not> is_round_day h r)"

text \<open>
  The divisions of the source divide a non-negative resistance or health by a rate of the
  match. C++ truncates towards zero; a zero divisor is undefined there, and the theorems
  about the searches assume the rates positive (\<open>host_ok\<close>).
\<close>

definition cdiv :: "int \<Rightarrow> int \<Rightarrow> int" where
  "cdiv a b = sgn a * sgn b * (\<bar>a\<bar> div \<bar>b\<bar>)"

definition host_ok :: "host \<Rightarrow> bool" where
  "host_ok h = (0 < life_lost_in_attack h \<and> 0 < builder_strength_demolish h
     \<and> 0 < hammer_strength_demolish h \<and> 0 < gun_strength_demolish h
     \<and> 0 < bazooka_strength_demolish h)"

section \<open>Types and attributes of the player\<close>

definition Directions :: "Dir list" where
  "Directions = [Up, Down, Left, Right]"

definition BAZOOKA :: int where "BAZOOKA = 6"
definition GUN :: int where "GUN = 5"
definition HAMMER :: int where "HAMMER = 4"
definition BUILDER :: int where "BUILDER = 3"
definition FOOD :: int where "FOOD = 2"
definition MONEY :: int where "MONEY = 1"
definition EMPTY :: int where "EMPTY = 0"
definition FRIENDLY_CITIZEN :: int where "FRIENDLY_CITIZEN = - 1"
definition WALL :: int where "WALL = - 2"
definition ENEMY_BUILDER :: int where "ENEMY_BUILDER = - 3"
definition ENEMY_HAMMER :: int where "ENEMY_HAMMER = - 4"
definition ENEMY_GUN :: int where "ENEMY_GUN = - 5"
definition ENEMY_BAZOOKA :: int where "ENEMY_BAZOOKA = - 6"

lemmas board_consts = BAZOOKA_def GUN_def HAMMER_def BUILDER_def FOOD_def MONEY_def EMPTY_def
  FRIENDLY_CITIZEN_def WALL_def ENEMY_BUILDER_def ENEMY_HAMMER_def ENEMY_GUN_def
  ENEMY_BAZOOKA_def

record Instr =
  priority :: int
  is_build :: bool
  uid :: int
  dir :: Dir

text \<open>\<^verbatim>\<open>Instr::operator<\<close>.\<close>

definition instr_less :: "Instr \<Rightarrow> Instr \<Rightarrow> bool" where
  "instr_less a i = (if priority a = priority i then uid a < uid i
                     else priority a < priority i)"

definition NOT_IMPORTANT :: int where "NOT_IMPORTANT = - 1"
definition BUILD_PRIORITY :: int where "BUILD_PRIORITY = 0"
definition RUN_PRIORITY :: int where "RUN_PRIORITY = 15"
definition RUN_DEATH_PRIORITY :: int where "RUN_DEATH_PRIORITY = 20"
definition VERY_HIGH_PRIORITY :: int where "VERY_HIGH_PRIORITY = 500"

lemmas priority_consts = NOT_IMPORTANT_def BUILD_PRIORITY_def RUN_PRIORITY_def
  RUN_DEATH_PRIORITY_def VERY_HIGH_PRIORITY_def

record Vertex =
  v_dist :: int
  v_pos :: Pos
  v_dir :: Dir

text \<open>\<^verbatim>\<open>Vertex::operator<\<close>: a vertex is less attractive when its distance is greater.\<close>

definition vertex_less :: "Vertex \<Rightarrow> Vertex \<Rightarrow> bool" where
  "vertex_less a i = (v_dist a > v_dist i)"

record Bonus_Info =
  bi_type :: char
  closest_dist :: int
  closest_is_friendly :: bool

definition Bonus_Info_default :: Bonus_Info where
  "Bonus_Info_default = \<lparr>bi_type = CHR ''U'', closest_dist = 0, closest_is_friendly = False\<rparr>"

definition Bonus_Info_of :: "char \<Rightarrow> Bonus_Info" where
  "Bonus_Info_of c = Bonus_Info_default\<lparr>bi_type := c\<rparr>"

definition MONEY_PROFIT :: int where "MONEY_PROFIT = 12"
definition HEALTH_PROFIT :: int where "HEALTH_PROFIT = 17"
definition ABOUT_TO_DIE_BONUS :: int where "ABOUT_TO_DIE_BONUS = 5"
definition ATTACK_PROFIT :: int where "ATTACK_PROFIT = 19"
definition WEAPON_PROFIT :: int where "WEAPON_PROFIT = 25"
definition STEAL_WEAPON_PROFIT :: int where "STEAL_WEAPON_PROFIT = 12"
definition BAZOOKA_EXTRA_PROFIT :: int where "BAZOOKA_EXTRA_PROFIT = 3"
definition WARRIOR_EXTRA_PROFIT :: int where "WARRIOR_EXTRA_PROFIT = 3"

lemmas profit_consts = MONEY_PROFIT_def HEALTH_PROFIT_def ABOUT_TO_DIE_BONUS_def
  ATTACK_PROFIT_def WEAPON_PROFIT_def STEAL_WEAPON_PROFIT_def BAZOOKA_EXTRA_PROFIT_def
  WARRIOR_EXTRA_PROFIT_def

definition BARRICADE_THRESHOLD :: int where "BARRICADE_THRESHOLD = 2"
definition BARRICADE_INTERRUPT_THRESHOLD :: int where "BARRICADE_INTERRUPT_THRESHOLD = 5"
definition PERCENT_BUILD :: int where "PERCENT_BUILD = 70"
definition COST_WALK_INTO_FRIENDLY :: int where "COST_WALK_INTO_FRIENDLY = 3"

definition INT_MIN :: int where "INT_MIN = - 2147483648"
definition USHRT_MAX :: int where "USHRT_MAX = 65535"

text \<open>
  The matrices are \<^verbatim>\<open>vector<vector<char>>\<close> and \<^verbatim>\<open>vector<vector<int>>\<close> of the size of the
  board; every read and write of the source is at a position inside the board, so a matrix
  is a function of the position. The two maps of bonus records are the maps the pointers
  \<^verbatim>\<open>bonus_distances\<close> and \<^verbatim>\<open>bonus_distances_prev\<close> point to in the round. The instruction
  buffer holds its entries in the order they were pushed; which of them \<^verbatim>\<open>top\<close> returns is
  \<open>pq_top\<close> below.
\<close>

record ai =
  sz_n :: int
  sz_m :: int
  Board :: "Pos \<Rightarrow> int"
  Board_Enemy :: "Pos \<Rightarrow> int"
  Board_Barricades :: "Pos \<Rightarrow> int"
  num_barricades :: int
  instruction_buffer :: "Instr list"
  bonus_distances :: "Pos \<rightharpoonup> Bonus_Info"
  bonus_distances_prev :: "Pos \<rightharpoonup> Bonus_Info"

text \<open>Conversion of an \<^verbatim>\<open>int\<close> to \<^verbatim>\<open>char\<close> (8 bits, signed) and to \<^verbatim>\<open>unsigned short\<close>.\<close>

definition to_char :: "int \<Rightarrow> int" where
  "to_char x = (x + 128) mod 256 - 128"

definition to_ushort :: "int \<Rightarrow> int" where
  "to_ushort x = x mod 65536"

text \<open>
  The value of an \<^verbatim>\<open>int\<close> product that leaves the 32 bits of \<^verbatim>\<open>int\<close>: the compiled player
  keeps the low 32 bits, read as a signed number.
\<close>

definition to_int32 :: "int \<Rightarrow> int" where
  "to_int32 x = (x + 2147483648) mod 4294967296 - 2147483648"

section \<open>Priority queues\<close>

text \<open>
  \<^verbatim>\<open>std::priority_queue\<close> returns as \<^verbatim>\<open>top\<close> an element that is not less than any other
  one. Which one it returns among several such elements depends on the implementation of the
  heap; the choice is the parameter \<open>pick\<close>, a number computed from the content of the queue
  and used as an index into the greatest elements.
\<close>

definition maxima :: "('a \<Rightarrow> 'a \<Rightarrow> bool) \<Rightarrow> 'a list \<Rightarrow> 'a list" where
  "maxima lt xs = filter (\<lambda>x. list_all (\<lambda>y. \<not> lt x y) xs) xs"

definition pq_top :: "('a \<Rightarrow> 'a \<Rightarrow> bool) \<Rightarrow> ('a list \<Rightarrow> nat) \<Rightarrow> 'a list \<Rightarrow> 'a" where
  "pq_top lt pick xs = maxima lt xs ! (pick xs mod length (maxima lt xs))"

definition pq_pop :: "('a \<Rightarrow> 'a \<Rightarrow> bool) \<Rightarrow> ('a list \<Rightarrow> nat) \<Rightarrow> 'a list \<Rightarrow> 'a list" where
  "pq_pop lt pick xs = remove1 (pq_top lt pick xs) xs"

definition instr_key :: "Instr \<Rightarrow> int \<times> int" where
  "instr_key a = (priority a, uid a)"

lemma instr_less_key: "instr_less a b \<longleftrightarrow> instr_key a < instr_key b"
  by (auto simp: instr_less_def instr_key_def)

lemma maxima_subset: "set (maxima lt xs) \<subseteq> set xs"
  by (auto simp: maxima_def)

lemma pq_pop_subset: "set (pq_pop lt pick xs) \<subseteq> set xs"
  by (simp add: pq_pop_def set_remove1_subset)

lemma maxima_key_nonempty:
  fixes key :: "'a \<Rightarrow> 'k::linorder"
  assumes "xs \<noteq> []" and "\<And>a b. lt a b \<longleftrightarrow> key a < key b"
  shows "maxima lt xs \<noteq> []"
proof -
  from assms(1) have "Max (key ` set xs) \<in> key ` set xs"
    by (intro Max_in) auto
  then obtain x where x: "x \<in> set xs" "key x = Max (key ` set xs)"
    by auto
  have "\<forall>y \<in> set xs. \<not> lt x y"
    using x assms(2) by (auto simp: not_less)
  then have "x \<in> set (maxima lt xs)"
    using x by (auto simp: maxima_def list_all_iff)
  then show ?thesis by auto
qed

lemma pq_top_in_maxima:
  assumes "maxima lt xs \<noteq> []"
  shows "pq_top lt pick xs \<in> set (maxima lt xs)"
  using assms by (simp add: pq_top_def)

lemma pq_top_instr_in: "Q \<noteq> [] \<Longrightarrow> pq_top instr_less pick Q \<in> set Q"
  using pq_top_in_maxima [OF maxima_key_nonempty [where key = instr_key], OF _ instr_less_key]
    maxima_subset by fastforce

lemma pq_top_instr_max:
  assumes "Q \<noteq> []" and "y \<in> set Q"
  shows "instr_key y \<le> instr_key (pq_top instr_less pick Q)"
proof -
  have "pq_top instr_less pick Q \<in> set (maxima instr_less Q)"
    using pq_top_in_maxima [OF maxima_key_nonempty [where key = instr_key], OF assms(1) instr_less_key] .
  then have "\<not> instr_less (pq_top instr_less pick Q) y"
    using assms(2) by (auto simp: maxima_def list_all_iff)
  then show ?thesis by (simp add: instr_less_key not_less)
qed

section \<open>The end of the round: sending the buffer\<close>

datatype Command = Build int Dir | Move int Dir

definition submit :: "Instr \<Rightarrow> Command" where
  "submit com = (if is_build com then Build (uid com) (dir com) else Move (uid com) (dir com))"

text \<open>
  The loop at the end of \<^verbatim>\<open>play\<close>: while the buffer is not empty, take the top, send it,
  pop it. \<open>drain\<close> gives the instructions in the order they are taken.
\<close>

function drain :: "(Instr list \<Rightarrow> nat) \<Rightarrow> Instr list \<Rightarrow> Instr list" where
  "drain pick Q = (if Q = [] then []
     else pq_top instr_less pick Q # drain pick (pq_pop instr_less pick Q))"
  by pat_completeness auto
termination
proof (relation "measure (\<lambda>(pick, Q). length Q)")
  show "wf (measure (\<lambda>(pick, Q). length Q))" by simp
next
  fix pick :: "Instr list \<Rightarrow> nat" and Q :: "Instr list"
  assume "Q \<noteq> []"
  then have "pq_top instr_less pick Q \<in> set Q" by (rule pq_top_instr_in)
  then show "((pick, pq_pop instr_less pick Q), (pick, Q)) \<in> measure (\<lambda>(pick, Q). length Q)"
    using \<open>Q \<noteq> []\<close> by (simp add: pq_pop_def length_remove1)
qed

declare drain.simps [simp del]

definition flush :: "(Instr list \<Rightarrow> nat) \<Rightarrow> Instr list \<Rightarrow> Command list" where
  "flush pick Q = map submit (drain pick Q)"

lemma mset_drain: "mset (drain pick Q) = mset Q"
proof (induction pick Q rule: drain.induct)
  case (1 pick Q)
  show ?case
  proof (cases "Q = []")
    case True
    then show ?thesis by (simp add: drain.simps)
  next
    case False
    then have "pq_top instr_less pick Q \<in> set Q" by (rule pq_top_instr_in)
    with False "1" show ?thesis
      by (subst drain.simps) (simp add: pq_pop_def)
  qed
qed

lemma sorted_drain: "sorted (rev (map instr_key (drain pick Q)))"
proof (induction pick Q rule: drain.induct)
  case (1 pick Q)
  show ?case
  proof (cases "Q = []")
    case True
    then show ?thesis by (simp add: drain.simps)
  next
    case False
    let ?t = "pq_top instr_less pick Q"
    have "set (drain pick (pq_pop instr_less pick Q)) \<subseteq> set Q"
      using mset_drain [of pick "pq_pop instr_less pick Q"]
      by (metis mset_eq_setD notin_set_remove1 pq_pop_def subsetI)
    then have "\<forall>y \<in> set (drain pick (pq_pop instr_less pick Q)). instr_key y \<le> instr_key ?t"
      using pq_top_instr_max [OF False] by blast
    with False "1" show ?thesis
      by (subst drain.simps) (auto simp: sorted_append)
  qed
qed


lemma set_drain: "set (drain pick Q) = set Q"
  using mset_drain [of pick Q] by (rule mset_eq_setD)

lemma keys_drain: "map instr_key (drain p R) = rev (sort (map instr_key R))"
proof -
  have "mset (rev (map instr_key (drain p R))) = mset (map instr_key R)"
    by (simp add: mset_drain)
  then have "sort (map instr_key R) = rev (map instr_key (drain p R))"
    using sorted_drain [of p R] by (rule properties_for_sort)
  then show ?thesis by simp
qed


section \<open>Building the board\<close>

definition board :: "ai \<Rightarrow> Pos \<Rightarrow> int" where
  "board s p = Board s p"

definition board_enemy :: "ai \<Rightarrow> Pos \<Rightarrow> int" where
  "board_enemy s p = Board_Enemy s p"

definition board_barricades :: "ai \<Rightarrow> Pos \<Rightarrow> int" where
  "board_barricades s p = Board_Barricades s p"

definition my_weapon :: "Citizen \<Rightarrow> int" where
  "my_weapon cit = (if cit_weapon cit = NoWeapon then BUILDER
     else if cit_weapon cit = Hammer then HAMMER
     else if cit_weapon cit = Gun then GUN
     else BAZOOKA)"

lemma vertex_less_key: "vertex_less a b \<longleftrightarrow> - v_dist a < - v_dist b"
  by (auto simp: vertex_less_def)

lemma pq_top_vertex_in: "Q \<noteq> [] \<Longrightarrow> pq_top vertex_less pick Q \<in> set Q"
  using pq_top_in_maxima [OF maxima_key_nonempty [where key = "\<lambda>v. - v_dist v"], OF _ vertex_less_key]
    maxima_subset by fastforce

text \<open>
  The positions the searches can still visit: the cells of the board and the positions in
  the queue, without the visited ones. Every turn of a search loop either visits one of
  them and pushes at most four vertices, all on the board, or only pops.
\<close>

definition pending :: "host \<Rightarrow> Pos set \<Rightarrow> Vertex list \<Rightarrow> Pos set" where
  "pending h visited Q = ({p. pos_ok h p} \<union> v_pos ` set Q) - visited"

definition search_measure :: "host \<Rightarrow> Pos set \<Rightarrow> Vertex list \<Rightarrow> nat" where
  "search_measure h visited Q = 5 * card (pending h visited Q) + length Q"

lemma finite_board: "finite {p. pos_ok h p}"
proof -
  have "{p. pos_ok h p} \<subseteq> {0..<board_rows h} \<times> {0..<board_cols h}"
    by (auto simp: pos_ok_def)
  then show ?thesis by (rule finite_subset) simp
qed

lemma finite_pending: "finite (pending h visited Q)"
  by (simp add: pending_def finite_board)

lemma search_measure_skip:
  assumes "Q \<noteq> []"
  shows "search_measure h visited (pq_pop vertex_less pick Q) < search_measure h visited Q"
proof -
  have top: "pq_top vertex_less pick Q \<in> set Q"
    using assms by (rule pq_top_vertex_in)
  have "pending h visited (pq_pop vertex_less pick Q) \<subseteq> pending h visited Q"
    using pq_pop_subset [of vertex_less pick Q] by (auto simp: pending_def)
  then have "card (pending h visited (pq_pop vertex_less pick Q)) \<le> card (pending h visited Q)"
    by (intro card_mono finite_pending)
  moreover have "length (pq_pop vertex_less pick Q) < length Q"
    using top assms by (simp add: pq_pop_def length_remove1)
  ultimately show ?thesis by (simp add: search_measure_def)
qed

lemma search_measure_visit:
  assumes "Q \<noteq> []" and "v_pos (pq_top vertex_less pick Q) \<notin> visited"
    and "set Q' \<subseteq> set (pq_pop vertex_less pick Q) \<union> X" and "v_pos ` X \<subseteq> {p. pos_ok h p}"
    and "length Q' \<le> length (pq_pop vertex_less pick Q) + 4"
  shows "search_measure h (insert (v_pos (pq_top vertex_less pick Q)) visited) Q'
         < search_measure h visited Q"
proof -
  let ?u = "v_pos (pq_top vertex_less pick Q)"
  have top: "pq_top vertex_less pick Q \<in> set Q"
    using assms(1) by (rule pq_top_vertex_in)
  then have u: "?u \<in> pending h visited Q"
    using assms(2) by (auto simp: pending_def)
  have "set Q' \<subseteq> set Q \<union> X"
    using assms(3) pq_pop_subset [of vertex_less pick Q] by auto
  then have "pending h (insert ?u visited) Q' \<subseteq> pending h visited Q - {?u}"
    using assms(4) by (auto simp: pending_def)
  then have "card (pending h (insert ?u visited) Q') \<le> card (pending h visited Q - {?u})"
    by (intro card_mono) (simp_all add: finite_pending)
  also have "\<dots> = card (pending h visited Q) - 1"
    using u by (simp add: finite_pending)
  finally have "card (pending h (insert ?u visited) Q') \<le> card (pending h visited Q) - 1" .
  moreover have "0 < card (pending h visited Q)"
    using u finite_pending [of h visited Q] by (auto simp: card_gt_0_iff)
  ultimately have c: "card (pending h (insert ?u visited) Q') + 1 \<le> card (pending h visited Q)"
    by arith
  have "length (pq_pop vertex_less pick Q) < length Q"
    using top assms(1) by (simp add: pq_pop_def length_remove1)
  with c assms(5) show ?thesis by (simp add: search_measure_def)
qed

subsection \<open>\<^verbatim>\<open>compute_closest\<close>\<close>

text \<open>
  One turn of the \<^verbatim>\<open>for (Dir d : Directions)\<close> loop of \<^verbatim>\<open>compute_closest\<close>, on the local
  \<^verbatim>\<open>distance\<close>, the matrix \<^verbatim>\<open>dist\<close> and the queue. The vertex is pushed without a direction,
  which this search never reads.
\<close>

definition closest_edge :: "host \<Rightarrow> ai \<Rightarrow> Pos \<Rightarrow> Dir
    \<Rightarrow> int \<times> (Pos \<Rightarrow> int) \<times> Vertex list \<Rightarrow> int \<times> (Pos \<Rightarrow> int) \<times> Vertex list" where
  "closest_edge h s u d = (\<lambda>(distance, dist, Q).
     let new_p = step u d in
     if pos_ok h new_p \<and> board s new_p \<noteq> WALL then
       let new_distance = to_ushort (dist u + 1);
           distance1 = (if board_barricades s new_p < 0
              then distance + cdiv (- board_barricades s new_p) (bazooka_strength_demolish h)
              else distance);
           distance2 = (if board_barricades s new_p > 0
              then distance1 + cdiv (board_barricades s new_p) (bazooka_strength_demolish h)
              else distance1)
       in if new_distance < dist new_p
          then (distance2, dist(new_p := new_distance),
                Q @ [\<lparr>v_dist = new_distance, v_pos = new_p, v_dir = Up\<rparr>])
          else (distance2, dist, Q)
     else (distance, dist, Q))"

definition closest_expand :: "host \<Rightarrow> ai \<Rightarrow> Pos \<Rightarrow> int \<Rightarrow> (Pos \<Rightarrow> int) \<Rightarrow> Vertex list
    \<Rightarrow> (Pos \<Rightarrow> int) \<times> Vertex list" where
  "closest_expand h s u distance dist Q = snd (fold (closest_edge h s u) Directions (distance, dist, Q))"

text \<open>
  What the loop does with a dequeued position that holds a citizen: \<open>Some\<close> of the record to
  return, or \<open>None\<close> to keep searching.
\<close>

definition closest_found :: "host \<Rightarrow> ai \<Rightarrow> int \<Rightarrow> Bonus_Info \<Rightarrow> Pos \<Rightarrow> int \<Rightarrow> Bonus_Info option" where
  "closest_found h s WEAPON info u distance =
     (if board s u \<le> ENEMY_BUILDER \<or> board s u = FRIENDLY_CITIZEN then
        if bi_type info = CHR ''M'' then
          Some (info\<lparr>closest_is_friendly := (board s u = FRIENDLY_CITIZEN), closest_dist := distance\<rparr>)
        else if bi_type info = CHR ''W'' then
          if board s u = FRIENDLY_CITIZEN then
            let c = citizen h (cell_id (cell h u)) in
            if cit_type c = Warrior \<and> my_weapon c < WEAPON
            then Some (info\<lparr>closest_is_friendly := True, closest_dist := distance\<rparr>)
            else None
          else if board s u < ENEMY_BUILDER \<and> - board s u < WEAPON
          then Some (info\<lparr>closest_is_friendly := False, closest_dist := distance\<rparr>)
          else None
        else None
      else None)"

lemma closest_edge_queue:
  assumes "closest_edge h s u d (distance, dist, Q) = (distance', dist', Q')"
  shows "\<exists>X. set Q' \<subseteq> set Q \<union> X \<and> v_pos ` X \<subseteq> {p. pos_ok h p} \<and> length Q' \<le> length Q + 1"
proof (cases "Q' = Q")
  case True
  then show ?thesis by (intro exI [of _ "{}"]) simp
next
  case False
  with assms have "Q' = Q @ [\<lparr>v_dist = to_ushort (dist u + 1), v_pos = step u d, v_dir = Up\<rparr>]"
    and "pos_ok h (step u d)"
    by (auto simp: closest_edge_def Let_def split: if_splits)
  then show ?thesis
    by (intro exI [of _ "{\<lparr>v_dist = to_ushort (dist u + 1), v_pos = step u d, v_dir = Up\<rparr>}"]) simp
qed

lemma closest_fold_queue:
  "fold (closest_edge h s u) ds (distance, dist, Q) = (distance', dist', Q')
   \<Longrightarrow> \<exists>X. set Q' \<subseteq> set Q \<union> X \<and> v_pos ` X \<subseteq> {p. pos_ok h p} \<and> length Q' \<le> length Q + length ds"
proof (induction ds arbitrary: distance dist Q)
  case Nil
  then show ?case by (intro exI [of _ "{}"]) simp
next
  case (Cons d ds)
  obtain a b c where e: "closest_edge h s u d (distance, dist, Q) = (a, b, c)"
    by (cases "closest_edge h s u d (distance, dist, Q)") auto
  from closest_edge_queue [OF e] obtain X where
    X: "set c \<subseteq> set Q \<union> X" "v_pos ` X \<subseteq> {p. pos_ok h p}" "length c \<le> length Q + 1"
    by blast
  from Cons.prems e have "fold (closest_edge h s u) ds (a, b, c) = (distance', dist', Q')"
    by simp
  from Cons.IH [OF this] obtain Y where
    Y: "set Q' \<subseteq> set c \<union> Y" "v_pos ` Y \<subseteq> {p. pos_ok h p}" "length Q' \<le> length c + length ds"
    by blast
  show ?case
    using X Y by (intro exI [of _ "X \<union> Y"]) auto
qed

lemma closest_expand_queue:
  assumes "closest_expand h s u distance dist Q = (dist', Q')"
  shows "\<exists>X. set Q' \<subseteq> set Q \<union> X \<and> v_pos ` X \<subseteq> {p. pos_ok h p} \<and> length Q' \<le> length Q + 4"
proof -
  obtain a where "fold (closest_edge h s u) Directions (distance, dist, Q) = (a, dist', Q')"
    using assms unfolding closest_expand_def
    by (cases "fold (closest_edge h s u) Directions (distance, dist, Q)") auto
  from closest_fold_queue [OF this] obtain X where
    "set Q' \<subseteq> set Q \<union> X" "v_pos ` X \<subseteq> {p. pos_ok h p}"
    "length Q' \<le> length Q + length Directions"
    by blast
  moreover have "length Directions = 4"
    by (simp add: Directions_def)
  ultimately show ?thesis
    by (intro exI [of _ X]) simp
qed

text \<open>The \<^verbatim>\<open>while (not Q.empty())\<close> loop of \<^verbatim>\<open>compute_closest\<close>.\<close>

function closest_loop :: "(Vertex list \<Rightarrow> nat) \<Rightarrow> host \<Rightarrow> ai \<Rightarrow> int \<Rightarrow> Bonus_Info
    \<Rightarrow> (Pos \<Rightarrow> int) \<Rightarrow> Pos set \<Rightarrow> Vertex list \<Rightarrow> Bonus_Info" where
  "closest_loop pick h s WEAPON info dist visited Q =
     (if Q = [] then info
      else
        let u = v_pos (pq_top vertex_less pick Q);
            Q1 = pq_pop vertex_less pick Q
        in if u \<in> visited then closest_loop pick h s WEAPON info dist visited Q1
           else
             let distance = dist u in
             case closest_found h s WEAPON info u distance of
               Some r \<Rightarrow> r
             | None \<Rightarrow>
                 closest_loop pick h s WEAPON info
                   (fst (closest_expand h s u distance dist Q1)) (insert u visited)
                   (snd (closest_expand h s u distance dist Q1)))"
  by pat_completeness auto
termination
proof (relation "measure (\<lambda>(pick, h, s, W, info, dist, visited, Q). search_measure h visited Q)")
  show "wf (measure (\<lambda>(pick, h, s, W, info, dist, visited, Q). search_measure h visited Q))"
    by simp
next
  fix pick :: "Vertex list \<Rightarrow> nat" and h :: host and s :: ai and WEAPON :: int
    and info :: Bonus_Info and dist :: "Pos \<Rightarrow> int" and visited :: "Pos set"
    and Q :: "Vertex list" and u Q1
  assume "Q \<noteq> []" "u = v_pos (pq_top vertex_less pick Q)" "Q1 = pq_pop vertex_less pick Q"
  then show "((pick, h, s, WEAPON, info, dist, visited, Q1), (pick, h, s, WEAPON, info, dist, visited, Q))
      \<in> measure (\<lambda>(pick, h, s, W, info, dist, visited, Q). search_measure h visited Q)"
    by (simp add: search_measure_skip)
next
  fix pick :: "Vertex list \<Rightarrow> nat" and h :: host and s :: ai and WEAPON :: int
    and info :: Bonus_Info and dist :: "Pos \<Rightarrow> int" and visited :: "Pos set"
    and Q :: "Vertex list" and u Q1 distance
  assume a: "Q \<noteq> []" "u = v_pos (pq_top vertex_less pick Q)" "Q1 = pq_pop vertex_less pick Q"
    "u \<notin> visited"
  obtain dist' Q' where e: "closest_expand h s u distance dist Q1 = (dist', Q')"
    by (cases "closest_expand h s u distance dist Q1") auto
  from closest_expand_queue [OF e] obtain X where
    "set Q' \<subseteq> set Q1 \<union> X" "v_pos ` X \<subseteq> {p. pos_ok h p}" "length Q' \<le> length Q1 + 4"
    by blast
  then have "search_measure h (insert u visited) Q' < search_measure h visited Q"
    using a search_measure_visit [of Q pick visited Q' X h] by simp
  then show "((pick, h, s, WEAPON, info, fst (closest_expand h s u distance dist Q1), insert u visited,
        snd (closest_expand h s u distance dist Q1)), (pick, h, s, WEAPON, info, dist, visited, Q))
      \<in> measure (\<lambda>(pick, h, s, W, info, dist, visited, Q). search_measure h visited Q)"
    by (simp add: e)
qed

declare closest_loop.simps [simp del]

definition compute_closest :: "(Vertex list \<Rightarrow> nat) \<Rightarrow> host \<Rightarrow> ai \<Rightarrow> Pos \<Rightarrow> Bonus_Info \<Rightarrow> Bonus_Info" where
  "compute_closest pick h s origin info =
     closest_loop pick h s (board s origin) info ((\<lambda>p. USHRT_MAX)(origin := 0)) {}
       [\<lparr>v_dist = 0, v_pos = origin, v_dir = Up\<rparr>]"

subsection \<open>\<^verbatim>\<open>build_board\<close>\<close>

definition update_danger :: "int \<Rightarrow> int \<Rightarrow> int" where
  "update_danger cell_v enemy = (if cell_v > 0 \<or> cell_v \<le> enemy then cell_v else enemy)"

text \<open>\<^verbatim>\<open>if (pos_ok(p)) update_danger(Board_Enemy[p], enemy)\<close>.\<close>

definition danger_at :: "host \<Rightarrow> Pos \<Rightarrow> int \<Rightarrow> ai \<Rightarrow> ai" where
  "danger_at h p enemy s =
     (if pos_ok h p then s\<lparr>Board_Enemy := (Board_Enemy s)(p := update_danger (Board_Enemy s p) enemy)\<rparr>
      else s)"

text \<open>The positions in the order of the two nested loops over rows and columns.\<close>

definition all_pos :: "int \<Rightarrow> int \<Rightarrow> Pos list" where
  "all_pos n m = concat (map (\<lambda>i. map (\<lambda>j. (i, j)) [0..m - 1]) [0..n - 1])"

text \<open>\<^verbatim>\<open>map::insert\<close> keeps the record of a key that is already there.\<close>

definition bonus_insert :: "Pos \<Rightarrow> Bonus_Info \<Rightarrow> ai \<Rightarrow> ai" where
  "bonus_insert p info s =
     (case bonus_distances s p of
        None \<Rightarrow> s\<lparr>bonus_distances := (bonus_distances s)(p \<mapsto> info)\<rparr>
      | Some _ \<Rightarrow> s)"

definition set_board :: "Pos \<Rightarrow> int \<Rightarrow> ai \<Rightarrow> ai" where
  "set_board p v s = s\<lparr>Board := (Board s)(p := v)\<rparr>"

definition enemy_of :: "Citizen \<Rightarrow> int" where
  "enemy_of cit = (if cit_type cit = Builder then ENEMY_BUILDER
     else if cit_weapon cit = Hammer then ENEMY_HAMMER
     else if cit_weapon cit = Gun then ENEMY_GUN
     else ENEMY_BAZOOKA)"

text \<open>The branch of \<^verbatim>\<open>build_board\<close> for a cell that holds a citizen of another player.\<close>

definition enemy_cell :: "host \<Rightarrow> Pos \<Rightarrow> Citizen \<Rightarrow> ai \<Rightarrow> ai" where
  "enemy_cell h p cit s =
     (let i = fst p; j = snd p;
          enemy = enemy_of cit;
          sa = set_board (i, j) enemy s;
          sb = sa\<lparr>Board_Enemy := (Board_Enemy sa)((i, j) := to_char (cit_life cit))\<rparr>
      in danger_at h (i, j + 1) enemy
           (danger_at h (i, j - 1) enemy
             (danger_at h (i + 1, j) enemy
               (danger_at h (i - 1, j) enemy sb))))"

text \<open>The body of the two nested loops of \<^verbatim>\<open>build_board\<close>, at the cell \<open>(i, j)\<close>.\<close>

definition board_cell :: "host \<Rightarrow> Pos \<Rightarrow> ai \<Rightarrow> ai" where
  "board_cell h p s =
     (let i = fst p; j = snd p; c = cell h (i, j);
          s1 =
            (if cell_type c = Building then set_board (i, j) WALL s
             else if cell_bonus c = Food then set_board (i, j) FOOD s
             else if cell_bonus c = Money then
               bonus_insert (i, j) (Bonus_Info_of (CHR ''M'')) (set_board (i, j) MONEY s)
             else if cell_weapon c = Gun then
               bonus_insert (i, j) (Bonus_Info_of (CHR ''W'')) (set_board (i, j) GUN s)
             else if cell_weapon c = Bazooka then
               bonus_insert (i, j) (Bonus_Info_of (CHR ''W'')) (set_board (i, j) BAZOOKA s)
             else if cell_id c \<noteq> - 1 then
               let cit = citizen h (cell_id c) in
               if cit_player cit = me h then set_board (i, j) FRIENDLY_CITIZEN s
               else enemy_cell h (i, j) cit s
             else set_board (i, j) EMPTY s)
      in if cell_resistance c = - 1
         then s1\<lparr>Board_Barricades := (Board_Barricades s1)((i, j) := 0)\<rparr>
         else if cell_b_owner c = me h
         then s1\<lparr>Board_Barricades := (Board_Barricades s1)((i, j) := cell_resistance c)\<rparr>
         else s1\<lparr>Board_Barricades := (Board_Barricades s1)((i, j) := - cell_resistance c)\<rparr>)"

text \<open>\<^verbatim>\<open>build_board\<close> up to the loop over the bonuses.\<close>

definition build_matrices :: "host \<Rightarrow> ai \<Rightarrow> ai" where
  "build_matrices h s =
     (let s0 = s\<lparr>bonus_distances := Map.empty\<rparr>;
          s1 = fold (\<lambda>p t. t\<lparr>Board_Enemy := (Board_Enemy t)(p := 0)\<rparr>) (all_pos (sz_n s) (sz_m s)) s0
      in fold (board_cell h) (all_pos (sz_n s) (sz_m s)) s1)"

text \<open>
  The last loop gives every record of the map to \<^verbatim>\<open>compute_closest\<close>, which reads the
  matrices and writes that record only.
\<close>

definition build_board :: "(Vertex list \<Rightarrow> nat) \<Rightarrow> host \<Rightarrow> ai \<Rightarrow> ai" where
  "build_board pick h s =
     (let s2 = build_matrices h s
      in s2\<lparr>bonus_distances :=
           (\<lambda>p. map_option (compute_closest pick h s2 p) (bonus_distances s2 p))\<rparr>)"

subsection \<open>The content of a cell and the threat around it\<close>

text \<open>
  The ordinal that the chain of tests of \<^verbatim>\<open>build_board\<close> writes into \<^verbatim>\<open>Board\<close> for a cell.
\<close>

definition cell_code :: "host \<Rightarrow> Pos \<Rightarrow> int" where
  "cell_code h p =
     (let c = cell h p in
      if cell_type c = Building then WALL
      else if cell_bonus c = Food then FOOD
      else if cell_bonus c = Money then MONEY
      else if cell_weapon c = Gun then GUN
      else if cell_weapon c = Bazooka then BAZOOKA
      else if cell_id c \<noteq> - 1 then
        (if cit_player (citizen h (cell_id c)) = me h then FRIENDLY_CITIZEN
         else enemy_of (citizen h (cell_id c)))
      else EMPTY)"

definition nbrs :: "Pos \<Rightarrow> Pos list" where
  "nbrs p = map (step p) Directions"

definition halo :: "host \<Rightarrow> Pos set \<Rightarrow> Pos \<Rightarrow> int" where
  "halo h D q = Min (insert 0 (cell_code h ` {r \<in> set (nbrs q). r \<in> D \<and> cell_code h r \<le> ENEMY_BUILDER}))"

definition halo_inv :: "host \<Rightarrow> Pos set \<Rightarrow> (Pos \<Rightarrow> int) \<Rightarrow> bool" where
  "halo_inv h D BE = (\<forall>q. pos_ok h q \<longrightarrow>
      (\<not> cell_code h q \<le> ENEMY_BUILDER \<longrightarrow> BE q = halo h D q)
      \<and> (cell_code h q \<le> ENEMY_BUILDER \<longrightarrow> q \<in> D
           \<longrightarrow> 0 < to_char (cit_life (citizen h (cell_id (cell h q))))
           \<longrightarrow> BE q = to_char (cit_life (citizen h (cell_id (cell h q))))))"

text \<open>
  The threat next to a cell as the specification words it: the ordinal of the strongest
  enemy in one of the four adjacent cells of the board, or zero when none holds an enemy.
  Enemy ordinals are negative, the strongest the smallest.
\<close>

definition strongest_adjacent :: "host \<Rightarrow> ai \<Rightarrow> Pos \<Rightarrow> int" where
  "strongest_adjacent h s p =
     min_list (0 # map (board s) (filter (\<lambda>q. pos_ok h q \<and> board s q \<le> ENEMY_BUILDER)
       (map (step p) Directions)))"

section \<open>Approaching a target\<close>

definition push_move :: "int \<Rightarrow> int \<Rightarrow> Dir \<Rightarrow> ai \<Rightarrow> ai" where
  "push_move prio ident d s =
     s\<lparr>instruction_buffer := instruction_buffer s @ [\<lparr>priority = prio, is_build = False, uid = ident, dir = d\<rparr>]\<rparr>"

definition push_build :: "int \<Rightarrow> int \<Rightarrow> Dir \<Rightarrow> ai \<Rightarrow> ai" where
  "push_build prio ident d s =
     s\<lparr>instruction_buffer := instruction_buffer s @ [\<lparr>priority = prio, is_build = True, uid = ident, dir = d\<rparr>]\<rparr>"

definition is_stronger :: "host \<Rightarrow> ai \<Rightarrow> Citizen \<Rightarrow> Pos \<Rightarrow> bool" where
  "is_stronger h s cit p =
     (let weapon = my_weapon cit in
      if weapon = - Board s p then cit_life cit > cit_life (citizen h (cell_id (cell h p)))
      else weapon > - Board s p)"

definition strength_demolish :: "host \<Rightarrow> int \<Rightarrow> int" where
  "strength_demolish h weapon =
     (if weapon = BUILDER then builder_strength_demolish h
      else if weapon = HAMMER then hammer_strength_demolish h
      else if weapon = GUN then gun_strength_demolish h
      else bazooka_strength_demolish h)"

text \<open>
  \<^verbatim>\<open>barricade_max_resistance()*PERCENT_BUILD/100\<close> multiplies two \<^verbatim>\<open>int\<close>s and divides the
  product.
\<close>

definition has_buildable_barricade :: "host \<Rightarrow> ai \<Rightarrow> Pos \<Rightarrow> bool" where
  "has_buildable_barricade h s p =
     (pos_ok h p \<and> board_barricades s p > 0 \<and> board s p \<noteq> FRIENDLY_CITIZEN
      \<and> board_barricades s p < cdiv (to_int32 (barricade_max_resistance h * PERCENT_BUILD)) 100)"

definition is_danger :: "host \<Rightarrow> ai \<Rightarrow> Pos \<Rightarrow> int \<Rightarrow> bool" where
  "is_danger h s p weapon =
     (if is_day h \<and> is_round_day h (cur_round h + 1) then False
      else - board_enemy s p > weapon)"

text \<open>
  \<^verbatim>\<open>no_brainer\<close> returns its verdict and the value it leaves in the reference parameter
  \<^verbatim>\<open>my_weapon\<close>.
\<close>

definition no_brainer :: "host \<Rightarrow> ai \<Rightarrow> Pos \<Rightarrow> int \<Rightarrow> bool \<Rightarrow> bool \<times> int" where
  "no_brainer h s p weapon is_warrior =
     (if Board s p \<le> ENEMY_BUILDER \<and> - Board s p \<le> weapon \<and> is_night h
         \<and> Board_Enemy s p \<le> life_lost_in_attack h \<and> Board_Barricades s p = 0
      then (True, weapon)
      else if is_warrior \<and> Board s p > weapon then (True, Board s p)
      else (False, weapon))"

definition add_movement_penalties :: "host \<Rightarrow> ai \<Rightarrow> Pos \<Rightarrow> int \<Rightarrow> int \<Rightarrow> int" where
  "add_movement_penalties h s p distance weapon =
     (let d1 = (if board_barricades s p < 0
                then to_ushort (distance + cdiv (- board_barricades s p) (strength_demolish h weapon))
                else distance);
          d2 = (if board s p \<le> ENEMY_BUILDER
                then to_ushort (d1 + (cdiv (board_enemy s p) (life_lost_in_attack h) - 1))
                else d1)
      in if board s p = FRIENDLY_CITIZEN then to_ushort (d2 + COST_WALK_INTO_FRIENDLY) else d2)"

text \<open>
  The locals of \<^verbatim>\<open>approach_target\<close> that its loops change, with the state of the player:
  \<^verbatim>\<open>operator[]\<close> on a map of bonus records adds a default record for a key that is missing.
  The pointer \<^verbatim>\<open>take_ownership\<close> is the key of the record it points to.
\<close>

record search =
  s_dist :: "Pos \<Rightarrow> int"
  s_visited :: "Pos set"
  s_Q :: "Vertex list"
  best_dir :: Dir
  best_profit :: int
  take_ownership :: "Pos option"
  take_ownership_dist :: int
  world :: ai

definition bd_get :: "Pos \<Rightarrow> search \<Rightarrow> Bonus_Info \<times> search" where
  "bd_get u st =
     (case bonus_distances (world st) u of
        Some b \<Rightarrow> (b, st)
      | None \<Rightarrow> (Bonus_Info_default,
          st\<lparr>world := (world st)\<lparr>bonus_distances := (bonus_distances (world st))(u \<mapsto> Bonus_Info_default)\<rparr>\<rparr>))"

definition bd_prev_get :: "Pos \<Rightarrow> search \<Rightarrow> Bonus_Info \<times> search" where
  "bd_prev_get u st =
     (case bonus_distances_prev (world st) u of
        Some b \<Rightarrow> (b, st)
      | None \<Rightarrow> (Bonus_Info_default,
          st\<lparr>world := (world st)\<lparr>bonus_distances_prev :=
            (bonus_distances_prev (world st))(u \<mapsto> Bonus_Info_default)\<rparr>\<rparr>))"

text \<open>
  The loop that computes \<^verbatim>\<open>safe\<close>: no position of the board next to \<open>new_p\<close> is dangerous.
\<close>

definition safe_cell :: "host \<Rightarrow> ai \<Rightarrow> Pos \<Rightarrow> int \<Rightarrow> bool" where
  "safe_cell h s new_p WEAPON =
     fold (\<lambda>e safe. if pos_ok h (step new_p e) \<and> is_danger h s (step new_p e) WEAPON
                     then False else safe) Directions True"

text \<open>
  The first loop over the directions: \<open>Inl\<close> is a \<^verbatim>\<open>return\<close> out of \<^verbatim>\<open>approach_target\<close>
  with its result, \<open>Inr\<close> the matrix and the queue after the loop.
\<close>

fun first_moves :: "host \<Rightarrow> ai \<Rightarrow> int \<Rightarrow> bool \<Rightarrow> Pos \<Rightarrow> int \<Rightarrow> Dir list
    \<Rightarrow> (Pos \<Rightarrow> int) \<times> Vertex list \<Rightarrow> (bool \<times> ai) + ((Pos \<Rightarrow> int) \<times> Vertex list)" where
  "first_moves h s ident is_warrior origin WEAPON [] (dist, Q) = Inr (dist, Q)"
| "first_moves h s ident is_warrior origin WEAPON (d # ds) (dist, Q) =
     (let new_p = step origin d in
      if \<not> pos_ok h new_p then first_moves h s ident is_warrior origin WEAPON ds (dist, Q)
      else
        let (nb, temp_weapon) = no_brainer h s new_p WEAPON is_warrior in
        if nb then
          if temp_weapon < - board_enemy s new_p then Inl (False, s)
          else Inl (True, push_move VERY_HIGH_PRIORITY ident d s)
        else
          let safe = safe_cell h s new_p WEAPON
          in if safe \<and> board s new_p \<noteq> WALL \<and> \<not> is_danger h s new_p WEAPON \<and> - board s new_p < WEAPON
             then
               let distance = add_movement_penalties h s new_p 1 WEAPON
               in first_moves h s ident is_warrior origin WEAPON ds
                    (dist(new_p := distance), Q @ [\<lparr>v_dist = distance, v_pos = new_p, v_dir = d\<rparr>])
             else first_moves h s ident is_warrior origin WEAPON ds (dist, Q))"

declare first_moves.simps [simp del]

text \<open>The second loop over the directions, run when the first one left the queue empty.\<close>

definition second_move :: "host \<Rightarrow> ai \<Rightarrow> Pos \<Rightarrow> int \<Rightarrow> Dir
    \<Rightarrow> (Pos \<Rightarrow> int) \<times> Vertex list \<Rightarrow> (Pos \<Rightarrow> int) \<times> Vertex list" where
  "second_move h s origin WEAPON d = (\<lambda>(dist, Q).
     let new_p = step origin d in
     if \<not> pos_ok h new_p then (dist, Q)
     else if board s new_p \<noteq> WALL \<and> \<not> is_danger h s new_p WEAPON \<and> - board s new_p < WEAPON
     then
       let distance = add_movement_penalties h s new_p 1 WEAPON
       in (dist(new_p := distance), Q @ [\<lparr>v_dist = distance, v_pos = new_p, v_dir = d\<rparr>])
     else (dist, Q))"

definition second_moves :: "host \<Rightarrow> ai \<Rightarrow> Pos \<Rightarrow> int
    \<Rightarrow> (Pos \<Rightarrow> int) \<times> Vertex list \<Rightarrow> (Pos \<Rightarrow> int) \<times> Vertex list" where
  "second_moves h s origin WEAPON = fold (second_move h s origin WEAPON) Directions"

text \<open>\<^verbatim>\<open>if (profit > best_profit) { ... take_ownership = nullptr; }\<close>.\<close>

definition better :: "int \<Rightarrow> Dir \<Rightarrow> search \<Rightarrow> search" where
  "better profit d st =
     (if profit > best_profit st
      then st\<lparr>best_profit := profit, best_dir := d, take_ownership := None\<rparr>
      else st)"

text \<open>The branch of the dequeued cell for money.\<close>

definition money_cell :: "Pos \<Rightarrow> Dir \<Rightarrow> int \<Rightarrow> search \<Rightarrow> search" where
  "money_cell u d distance st =
     (let profit = MONEY_PROFIT - distance;
          (b, st1) = bd_get u st;
          closest = closest_dist b
      in if profit > 0 \<and> closest < distance
         then
           let (bp, st2) = bd_prev_get u st1
           in if closest < closest_dist bp then better 0 d st2 else better profit d st2
         else better profit d st1)"

text \<open>
  The branch for a weapon; the test on the recorded distance, which reads the map, is made
  by the caller.
\<close>

definition weapon_cell :: "bool \<Rightarrow> int \<Rightarrow> Pos \<Rightarrow> Dir \<Rightarrow> int \<Rightarrow> Bonus_Info \<Rightarrow> search \<Rightarrow> search" where
  "weapon_cell is_warrior WEAPON u d distance b st =
     (let s = world st in
      if is_warrior \<and> board s u > WEAPON then
        let profit = WEAPON_PROFIT - distance;
            profit1 = (if board s u = BAZOOKA then profit + BAZOOKA_EXTRA_PROFIT * 2 else profit)
        in better profit1 d st
      else if closest_is_friendly b then
        st\<lparr>s_dist := (s_dist st)(u := to_ushort (s_dist st u + 4))\<rparr>
      else
        let profit = STEAL_WEAPON_PROFIT - distance;
            profit1 = (if board s u = BAZOOKA then profit + BAZOOKA_EXTRA_PROFIT else profit)
        in if profit1 > best_profit st
           then st\<lparr>best_profit := profit1, best_dir := d, take_ownership := Some u,
                   take_ownership_dist := distance\<rparr>
           else st)"

text \<open>
  The chain of tests on the dequeued cell \<open>u\<close>. The first component of the result is True
  when the source goes on with \<^verbatim>\<open>continue\<close>, without looking at the adjacent positions.
\<close>

definition evaluate :: "host \<Rightarrow> Citizen \<Rightarrow> bool \<Rightarrow> bool \<Rightarrow> int \<Rightarrow> Pos \<Rightarrow> Dir \<Rightarrow> search
    \<Rightarrow> bool \<times> search" where
  "evaluate h c is_warrior NEED_HEAL WEAPON u d st =
     (let s = world st; distance = s_dist st u in
      if is_warrior \<and> board s u \<le> ENEMY_BUILDER \<and> is_stronger h s c u
         \<and> is_round_night h (cur_round h + s_dist st u)
      then
        let profit = ATTACK_PROFIT - distance;
            profit1 = (if board s u < ENEMY_BUILDER then profit + WARRIOR_EXTRA_PROFIT else profit)
        in (True, better profit1 d st)
      else if board s u = MONEY then (False, money_cell u d distance st)
      else if NEED_HEAL \<and> board s u = FOOD then
        let profit = HEALTH_PROFIT - distance;
            profit1 = (if life_lost_in_attack h \<ge> cit_life c then profit + ABOUT_TO_DIE_BONUS else profit)
        in (False, better profit1 d st)
      else if board s u \<ge> GUN then
        let (b, st1) = bd_get u st
        in if closest_dist b \<ge> distance
           then (False, weapon_cell is_warrior WEAPON u d distance b st1)
           else (False, st1)
      else (False, st))"

text \<open>One turn of the loop over the directions at the end of the body of the search loop.\<close>

definition search_edge :: "host \<Rightarrow> int \<Rightarrow> Pos \<Rightarrow> Dir \<Rightarrow> Dir \<Rightarrow> search \<Rightarrow> search" where
  "search_edge h WEAPON u dir0 d st =
     (let new_p = step u d; s = world st in
      if pos_ok h new_p \<and> board s new_p \<noteq> WALL then
        let new_distance = add_movement_penalties h s new_p (to_ushort (s_dist st u + 1)) WEAPON
        in if new_distance < s_dist st new_p
           then st\<lparr>s_dist := (s_dist st)(new_p := new_distance),
                   s_Q := s_Q st @ [\<lparr>v_dist = new_distance, v_pos = new_p, v_dir = dir0\<rparr>]\<rparr>
           else st
      else st)"

definition search_expand :: "host \<Rightarrow> int \<Rightarrow> Pos \<Rightarrow> Dir \<Rightarrow> search \<Rightarrow> search" where
  "search_expand h WEAPON u dir0 st = fold (search_edge h WEAPON u dir0) Directions st"

text \<open>The body of the search loop for a queue that is not empty.\<close>

definition search_step :: "(Vertex list \<Rightarrow> nat) \<Rightarrow> host \<Rightarrow> Citizen \<Rightarrow> bool \<Rightarrow> bool \<Rightarrow> int
    \<Rightarrow> search \<Rightarrow> search" where
  "search_step pick h c is_warrior NEED_HEAL WEAPON st =
     (let u = v_pos (pq_top vertex_less pick (s_Q st));
          dir0 = v_dir (pq_top vertex_less pick (s_Q st));
          st1 = st\<lparr>s_Q := pq_pop vertex_less pick (s_Q st)\<rparr>
      in if u \<in> s_visited st1 then st1
         else
           let st2 = st1\<lparr>s_visited := insert u (s_visited st1)\<rparr>;
               (cont, st3) = evaluate h c is_warrior NEED_HEAL WEAPON u dir0 st2
           in if cont then st3 else search_expand h WEAPON u dir0 st3)"

lemma better_sel [simp]:
  "s_Q (better p d st) = s_Q st" "s_visited (better p d st) = s_visited st"
  "s_dist (better p d st) = s_dist st" "world (better p d st) = world st"
  by (simp_all add: better_def)

lemma bd_get_sel [simp]:
  "s_Q (snd (bd_get u st)) = s_Q st" "s_visited (snd (bd_get u st)) = s_visited st"
  "s_dist (snd (bd_get u st)) = s_dist st" "best_dir (snd (bd_get u st)) = best_dir st"
  "best_profit (snd (bd_get u st)) = best_profit st"
  "take_ownership (snd (bd_get u st)) = take_ownership st"
  by (simp_all add: bd_get_def split: option.splits)

lemma bd_prev_get_sel [simp]:
  "s_Q (snd (bd_prev_get u st)) = s_Q st" "s_visited (snd (bd_prev_get u st)) = s_visited st"
  "s_dist (snd (bd_prev_get u st)) = s_dist st" "best_dir (snd (bd_prev_get u st)) = best_dir st"
  "best_profit (snd (bd_prev_get u st)) = best_profit st"
  "take_ownership (snd (bd_prev_get u st)) = take_ownership st"
  by (simp_all add: bd_prev_get_def split: option.splits)

lemma money_cell_sel [simp]:
  "s_Q (money_cell u d distance st) = s_Q st" "s_visited (money_cell u d distance st) = s_visited st"
  "s_dist (money_cell u d distance st) = s_dist st"
  by (simp_all add: money_cell_def Let_def split_beta)

lemma weapon_cell_sel [simp]:
  "s_Q (weapon_cell w W u d distance b st) = s_Q st"
  "s_visited (weapon_cell w W u d distance b st) = s_visited st"
  by (simp_all add: weapon_cell_def Let_def)

lemma evaluate_sel [simp]:
  "s_Q (snd (evaluate h c w nh W u d st)) = s_Q st"
  "s_visited (snd (evaluate h c w nh W u d st)) = s_visited st"
  by (simp_all add: evaluate_def Let_def split_beta)

lemma search_edge_visited [simp]: "s_visited (search_edge h W u dir0 d st) = s_visited st"
  by (simp add: search_edge_def Let_def)

lemma search_edge_queue:
  "\<exists>X. set (s_Q (search_edge h W u dir0 d st)) \<subseteq> set (s_Q st) \<union> X \<and> v_pos ` X \<subseteq> {p. pos_ok h p}
     \<and> length (s_Q (search_edge h W u dir0 d st)) \<le> length (s_Q st) + 1"
proof (cases "s_Q (search_edge h W u dir0 d st) = s_Q st")
  case True
  then show ?thesis by (intro exI [of _ "{}"]) simp
next
  case False
  let ?v = "\<lparr>v_dist = add_movement_penalties h (world st) (step u d) (to_ushort (s_dist st u + 1)) W,
     v_pos = step u d, v_dir = dir0\<rparr>"
  from False have "s_Q (search_edge h W u dir0 d st) = s_Q st @ [?v]" and "pos_ok h (step u d)"
    by (auto simp: search_edge_def Let_def split: if_splits)
  then show ?thesis
    by (intro exI [of _ "{?v}"]) simp
qed

lemma search_fold_queue:
  "\<exists>X. set (s_Q (fold (search_edge h W u dir0) ds st)) \<subseteq> set (s_Q st) \<union> X \<and> v_pos ` X \<subseteq> {p. pos_ok h p}
     \<and> length (s_Q (fold (search_edge h W u dir0) ds st)) \<le> length (s_Q st) + length ds
     \<and> s_visited (fold (search_edge h W u dir0) ds st) = s_visited st"
proof (induction ds arbitrary: st)
  case Nil
  then show ?case by (intro exI [of _ "{}"]) simp
next
  case (Cons d ds)
  let ?st = "search_edge h W u dir0 d st"
  from search_edge_queue [of h W u dir0 d st] obtain X where
    X: "set (s_Q ?st) \<subseteq> set (s_Q st) \<union> X" "v_pos ` X \<subseteq> {p. pos_ok h p}"
       "length (s_Q ?st) \<le> length (s_Q st) + 1"
    by blast
  from Cons.IH [of ?st] obtain Y where
    Y: "set (s_Q (fold (search_edge h W u dir0) ds ?st)) \<subseteq> set (s_Q ?st) \<union> Y"
       "v_pos ` Y \<subseteq> {p. pos_ok h p}"
       "length (s_Q (fold (search_edge h W u dir0) ds ?st)) \<le> length (s_Q ?st) + length ds"
       "s_visited (fold (search_edge h W u dir0) ds ?st) = s_visited ?st"
    by blast
  show ?case
    using X Y by (intro exI [of _ "X \<union> Y"]) auto
qed

lemma search_expand_queue:
  "\<exists>X. set (s_Q (search_expand h W u dir0 st)) \<subseteq> set (s_Q st) \<union> X \<and> v_pos ` X \<subseteq> {p. pos_ok h p}
     \<and> length (s_Q (search_expand h W u dir0 st)) \<le> length (s_Q st) + 4"
proof -
  from search_fold_queue [of h W u dir0 Directions st] obtain X where
    "set (s_Q (search_expand h W u dir0 st)) \<subseteq> set (s_Q st) \<union> X" "v_pos ` X \<subseteq> {p. pos_ok h p}"
    "length (s_Q (search_expand h W u dir0 st)) \<le> length (s_Q st) + length Directions"
    unfolding search_expand_def by blast
  moreover have "length Directions = 4"
    by (simp add: Directions_def)
  ultimately show ?thesis
    by (intro exI [of _ X]) simp
qed

lemma search_expand_visited [simp]: "s_visited (search_expand h W u dir0 st) = s_visited st"
  using search_fold_queue [of h W u dir0 Directions st] by (auto simp: search_expand_def)

lemma search_step_measure:
  assumes "s_Q st \<noteq> []"
  shows "search_measure h (s_visited (search_step pick h c w nh W st)) (s_Q (search_step pick h c w nh W st))
     < search_measure h (s_visited st) (s_Q st)"
proof -
  let ?u = "v_pos (pq_top vertex_less pick (s_Q st))"
  let ?d = "v_dir (pq_top vertex_less pick (s_Q st))"
  let ?Q1 = "pq_pop vertex_less pick (s_Q st)"
  show ?thesis
  proof (cases "?u \<in> s_visited st")
    case True
    then show ?thesis
      using search_measure_skip [OF assms, of h "s_visited st" pick]
      by (simp add: search_step_def Let_def)
  next
    case False
    let ?st2 = "st\<lparr>s_Q := ?Q1, s_visited := insert ?u (s_visited st)\<rparr>"
    let ?e = "evaluate h c w nh W ?u ?d ?st2"
    have step: "search_step pick h c w nh W st = (if fst ?e then snd ?e else search_expand h W ?u ?d (snd ?e))"
      using False by (simp add: search_step_def Let_def split_beta)
    show ?thesis
    proof (cases "fst ?e")
      case True
      have "search_measure h (insert ?u (s_visited st)) ?Q1 < search_measure h (s_visited st) (s_Q st)"
        by (rule search_measure_visit [OF assms False, where X = "{}"]) simp_all
      then show ?thesis using True by (simp add: step)
    next
      case nf: False
      from search_expand_queue [of h W ?u ?d "snd ?e"] obtain X where
        X: "set (s_Q (search_expand h W ?u ?d (snd ?e))) \<subseteq> set ?Q1 \<union> X" "v_pos ` X \<subseteq> {p. pos_ok h p}"
           "length (s_Q (search_expand h W ?u ?d (snd ?e))) \<le> length ?Q1 + 4"
        by auto
      have "search_measure h (insert ?u (s_visited st)) (s_Q (search_expand h W ?u ?d (snd ?e)))
          < search_measure h (s_visited st) (s_Q st)"
        by (rule search_measure_visit [OF assms False X])
      then show ?thesis using nf by (simp add: step)
    qed
  qed
qed

text \<open>
  The \<^verbatim>\<open>while (not Q.empty())\<close> loop of \<^verbatim>\<open>approach_target\<close>. Every turn takes a position
  out of the positions still to visit or only shortens the queue.
\<close>

function search_loop :: "(Vertex list \<Rightarrow> nat) \<Rightarrow> host \<Rightarrow> Citizen \<Rightarrow> bool \<Rightarrow> bool \<Rightarrow> int
    \<Rightarrow> search \<Rightarrow> search" where
  "search_loop pick h c is_warrior NEED_HEAL WEAPON st =
     (if s_Q st = [] then st
      else search_loop pick h c is_warrior NEED_HEAL WEAPON
             (search_step pick h c is_warrior NEED_HEAL WEAPON st))"
  by pat_completeness auto
termination
  by (relation "measure (\<lambda>(pick, h, c, w, nh, W, st). search_measure h (s_visited st) (s_Q st))")
     (simp_all add: search_step_measure)


declare search_loop.simps [simp del]

text \<open>The threshold under which a builder prefers building to moving.\<close>

definition barricade_threshold :: "host \<Rightarrow> ai \<Rightarrow> bool \<Rightarrow> Pos \<Rightarrow> int" where
  "barricade_threshold h s is_warrior origin =
     (if is_day h \<and> \<not> is_warrior \<and> board_barricades s origin = 0 then
        fold (\<lambda>d t. if has_buildable_barricade h s (step origin d)
                     then BARRICADE_INTERRUPT_THRESHOLD else t)
          Directions
          (if num_barricades s < max_num_barricades h then BARRICADE_THRESHOLD else INT_MIN)
      else INT_MIN)"

text \<open>\<^verbatim>\<open>approach_target\<close> after the search loop.\<close>

definition commit :: "host \<Rightarrow> Citizen \<Rightarrow> int \<Rightarrow> bool \<Rightarrow> int \<Rightarrow> search \<Rightarrow> bool \<times> ai" where
  "commit h c ident is_warrior WEAPON st =
     (let s = world st; origin = cit_pos c in
      if best_profit st = INT_MIN then (False, s)
      else if best_profit st \<le> barricade_threshold h s is_warrior origin then (False, s)
      else
        let new_p = step origin (best_dir st) in
        if is_danger h s origin WEAPON \<and> s_dist st new_p > 1 then (False, s)
        else
          let prio =
                (if is_danger h s origin WEAPON then
                   (if life_lost_in_attack h \<ge> cit_life c then RUN_DEATH_PRIORITY else RUN_PRIORITY)
                 else if board_enemy s new_p = 0 then NOT_IMPORTANT
                 else best_profit st);
              s1 =
                (case take_ownership st of
                   None \<Rightarrow> s
                 | Some u \<Rightarrow>
                     s\<lparr>bonus_distances := (bonus_distances s)(u \<mapsto>
                        (case bonus_distances s u of Some b \<Rightarrow> b | None \<Rightarrow> Bonus_Info_default)
                          \<lparr>closest_is_friendly := True, closest_dist := take_ownership_dist st\<rparr>)\<rparr>)
          in (True, push_move prio ident (best_dir st) s1))"

definition approach_target :: "(Vertex list \<Rightarrow> nat) \<Rightarrow> host \<Rightarrow> ai \<Rightarrow> int \<Rightarrow> bool \<Rightarrow> bool \<times> ai" where
  "approach_target pick h s ident is_warrior =
     (let c = citizen h ident;
          origin = cit_pos c;
          NEED_HEAL = (if is_warrior then cit_life c < warrior_ini_life h
                       else cit_life c < builder_ini_life h);
          WEAPON = my_weapon c;
          dist0 = (\<lambda>p. USHRT_MAX)(origin := 0)
      in case first_moves h s ident is_warrior origin WEAPON Directions (dist0, []) of
           Inl r \<Rightarrow> r
         | Inr (dist1, Q1) \<Rightarrow>
             let (dist2, Q2) = (if Q1 = [] then second_moves h s origin WEAPON (dist1, Q1)
                                else (dist1, Q1));
                 st = search_loop pick h c is_warrior NEED_HEAL WEAPON
                        \<lparr>s_dist = dist2, s_visited = {origin}, s_Q = Q2, best_dir = Left,
                         best_profit = INT_MIN, take_ownership = None, take_ownership_dist = 0,
                         world = s\<rparr>
             in commit h c ident is_warrior WEAPON st)"

section \<open>The tasks of the citizens\<close>

definition can_build_safe :: "host \<Rightarrow> ai \<Rightarrow> Pos \<Rightarrow> bool" where
  "can_build_safe h s p =
     (pos_ok h p \<and> board s p = EMPTY \<and> board_enemy s p = 0 \<and> board_barricades s p = 0)"

definition can_build :: "host \<Rightarrow> ai \<Rightarrow> Pos \<Rightarrow> bool" where
  "can_build h s p = (pos_ok h p \<and> board s p = EMPTY \<and> board_barricades s p = 0)"

text \<open>
  Each loop of the tasks that acts at the first direction passing its test and returns is
  \<open>find\<close> on the list of directions.
\<close>

definition builder_day_task :: "(Vertex list \<Rightarrow> nat) \<Rightarrow> host \<Rightarrow> ai \<Rightarrow> int \<Rightarrow> ai" where
  "builder_day_task pick h s ident =
     (let (moved, s1) = approach_target pick h s ident False in
      if moved then s1
      else
        let pos = cit_pos (citizen h ident) in
        case find (\<lambda>d. has_buildable_barricade h s1 (step pos d)) Directions of
          Some d \<Rightarrow> push_build BUILD_PRIORITY ident d s1
        | None \<Rightarrow>
            if num_barricades s1 \<ge> max_num_barricades h then s1
            else
              case find (\<lambda>d. can_build_safe h s1 (step pos d)) Directions of
                Some d \<Rightarrow> push_build BUILD_PRIORITY ident d (s1\<lparr>num_barricades := num_barricades s1 + 1\<rparr>)
              | None \<Rightarrow>
                  case find (\<lambda>d. can_build h s1 (step pos d)) Directions of
                    Some d \<Rightarrow>
                      push_build BUILD_PRIORITY ident d (s1\<lparr>num_barricades := num_barricades s1 + 1\<rparr>)
                  | None \<Rightarrow> s1)"

definition warrior_day_task :: "(Vertex list \<Rightarrow> nat) \<Rightarrow> host \<Rightarrow> ai \<Rightarrow> int \<Rightarrow> ai" where
  "warrior_day_task pick h s ident = snd (approach_target pick h s ident True)"

definition is_escape_route :: "host \<Rightarrow> ai \<Rightarrow> Pos \<Rightarrow> int \<Rightarrow> bool" where
  "is_escape_route h s p weapon = (pos_ok h p \<and> board s p \<noteq> WALL \<and> - board_enemy s p \<le> weapon)"

text \<open>
  The escape of the night tasks; \<open>none\<close> is the starting value of \<^verbatim>\<open>best_outcome\<close>, and the
  direction has no value before the loop gives it one.
\<close>

definition escape :: "host \<Rightarrow> ai \<Rightarrow> int \<Rightarrow> Citizen \<Rightarrow> int \<Rightarrow> int \<Rightarrow> ai" where
  "escape h s ident c weapon none =
     (let pos = cit_pos c;
          prio = (if life_lost_in_attack h \<ge> cit_life c then RUN_DEATH_PRIORITY else RUN_PRIORITY)
      in case find (\<lambda>d. pos_ok h (step pos d) \<and> board_barricades s (step pos d) > 0) Directions of
           Some d \<Rightarrow> push_move prio ident d s
         | None \<Rightarrow>
             let (best_outcome, best) =
                   fold (\<lambda>d (bo, b). if is_escape_route h s (step pos d) weapon \<and> board s (step pos d) > bo
                                      then (board s (step pos d), Some d) else (bo, b))
                     Directions (none, None)
             in if best_outcome \<noteq> none
                then (case best of Some d \<Rightarrow> push_move prio ident d s | None \<Rightarrow> s)
                else s)"

definition builder_night_task :: "(Vertex list \<Rightarrow> nat) \<Rightarrow> host \<Rightarrow> ai \<Rightarrow> int \<Rightarrow> ai" where
  "builder_night_task pick h s ident =
     (let (moved, s1) = approach_target pick h s ident False in
      if moved then s1
      else
        let c = citizen h ident in
        if - board_enemy s1 (cit_pos c) > BUILDER then escape h s1 ident c BUILDER (- 1) else s1)"

definition warrior_night_task :: "(Vertex list \<Rightarrow> nat) \<Rightarrow> host \<Rightarrow> ai \<Rightarrow> int \<Rightarrow> ai" where
  "warrior_night_task pick h s ident =
     (let (moved, s1) = approach_target pick h s ident True in
      if moved then s1
      else
        let c = citizen h ident in
        if - board_enemy s1 (cit_pos c) > my_weapon c then escape h s1 ident c (my_weapon c) INT_MIN
        else s1)"

section \<open>Notions used by the properties\<close>

text \<open>
  The first direction, in the order of \<^verbatim>\<open>Directions\<close>, whose cell is on the board and passes
  \<^verbatim>\<open>no_brainer\<close>: the first loop of \<^verbatim>\<open>approach_target\<close> returns at this direction.
\<close>

definition first_no_brainer :: "host \<Rightarrow> ai \<Rightarrow> Pos \<Rightarrow> int \<Rightarrow> bool \<Rightarrow> Dir list \<Rightarrow> Dir option" where
  "first_no_brainer h s origin WEAPON is_warrior ds =
     find (\<lambda>d. pos_ok h (step origin d) \<and> fst (no_brainer h s (step origin d) WEAPON is_warrior)) ds"


text \<open>
  What the two loops over the directions require of a direction before they put it into the
  queue, for a cell that did not pass \<^verbatim>\<open>no_brainer\<close>.
\<close>

definition seed_ok :: "host \<Rightarrow> ai \<Rightarrow> Pos \<Rightarrow> int \<Rightarrow> bool \<Rightarrow> Dir \<Rightarrow> bool" where
  "seed_ok h s origin WEAPON is_warrior d =
     (pos_ok h (step origin d) \<and> board s (step origin d) \<noteq> WALL
      \<and> \<not> is_danger h s (step origin d) WEAPON \<and> - board s (step origin d) < WEAPON
      \<and> \<not> fst (no_brainer h s (step origin d) WEAPON is_warrior))"

text \<open>
  The search changes the maps of bonus records only; \<open>same_world\<close> is what it leaves alone.
  \<open>search_inv\<close> is kept by the search loop: the directions in the queue and the best
  direction, once a profit was found, are directions the first two loops accepted.
\<close>

definition same_world :: "ai \<Rightarrow> ai \<Rightarrow> bool" where
  "same_world s t = (Board t = Board s \<and> Board_Enemy t = Board_Enemy s
     \<and> Board_Barricades t = Board_Barricades s \<and> instruction_buffer t = instruction_buffer s
     \<and> num_barricades t = num_barricades s)"

definition search_inv :: "ai \<Rightarrow> Dir set \<Rightarrow> search \<Rightarrow> bool" where
  "search_inv s D st = ((\<forall>v \<in> set (s_Q st). v_dir v \<in> D)
     \<and> (best_profit st \<noteq> INT_MIN \<longrightarrow> best_dir st \<in> D) \<and> same_world s (world st))"

definition good :: "Dir set \<Rightarrow> search \<Rightarrow> bool" where
  "good D st = (best_profit st \<noteq> INT_MIN \<longrightarrow> best_dir st \<in> D)"

text \<open>The record that \<^verbatim>\<open>operator[]\<close> reads from a map of bonus records.\<close>

definition bonus_lookup :: "(Pos \<rightharpoonup> Bonus_Info) \<Rightarrow> Pos \<Rightarrow> Bonus_Info" where
  "bonus_lookup m u = (case m u of None \<Rightarrow> Bonus_Info_default | Some b \<Rightarrow> b)"

text \<open>
  The cost in turns that the search adds for entering a cell, when nothing wraps around: one
  turn, the turns to demolish a barricade of an enemy, the attacks to finish an enemy and
  the penalty for a cell with a citizen of the player. For an enemy the source adds one
  turn less.
\<close>

definition move_cost :: "host \<Rightarrow> ai \<Rightarrow> int \<Rightarrow> Pos \<Rightarrow> int" where
  "move_cost h s WEAPON p =
     1 + (if board_barricades s p < 0
          then cdiv (- board_barricades s p) (strength_demolish h WEAPON) else 0)
       + (if board s p \<le> ENEMY_BUILDER then cdiv (board_enemy s p) (life_lost_in_attack h) else 0)
       + (if board s p = FRIENDLY_CITIZEN then COST_WALK_INTO_FRIENDLY else 0)"

text \<open>
  The distances of the search are \<^verbatim>\<open>unsigned short\<close>. They do not wrap around when the cells
  with an enemy have a health that is not negative and twice the cost of all the cells of
  the board, with the four turns the search can add at each cell, stays below \<^verbatim>\<open>USHRT_MAX\<close>.
\<close>

definition costs_fit :: "host \<Rightarrow> ai \<Rightarrow> int \<Rightarrow> bool" where
  "costs_fit h s WEAPON =
     (list_all (\<lambda>p. board s p \<le> ENEMY_BUILDER \<longrightarrow> 0 \<le> board_enemy s p)
        (all_pos (board_rows h) (board_cols h))
      \<and> 2 * sum_list (map (\<lambda>p. move_cost h s WEAPON p + 4) (all_pos (board_rows h) (board_cols h)))
          < USHRT_MAX)"

text \<open>
  The state in which \<^verbatim>\<open>approach_target\<close> enters its search loop, when the first loop over
  the directions did not return, and the states the loop goes through from there.
\<close>

definition search_init :: "host \<Rightarrow> ai \<Rightarrow> int \<Rightarrow> bool \<Rightarrow> search option" where
  "search_init h s ident is_warrior =
     (let c = citizen h ident; origin = cit_pos c; WEAPON = my_weapon c;
          dist0 = (\<lambda>p. USHRT_MAX)(origin := 0)
      in case first_moves h s ident is_warrior origin WEAPON Directions (dist0, []) of
           Inl r \<Rightarrow> None
         | Inr (dist1, Q1) \<Rightarrow>
             let (dist2, Q2) = (if Q1 = [] then second_moves h s origin WEAPON (dist1, Q1)
                                else (dist1, Q1))
             in Some \<lparr>s_dist = dist2, s_visited = {origin}, s_Q = Q2, best_dir = Left,
                      best_profit = INT_MIN, take_ownership = None, take_ownership_dist = 0,
                      world = s\<rparr>)"

inductive search_reaches :: "(Vertex list \<Rightarrow> nat) \<Rightarrow> host \<Rightarrow> Citizen \<Rightarrow> bool \<Rightarrow> bool \<Rightarrow> int
    \<Rightarrow> search \<Rightarrow> search \<Rightarrow> bool"
  for pick h c is_warrior NEED_HEAL WEAPON init where
  start: "search_reaches pick h c is_warrior NEED_HEAL WEAPON init init"
| turn: "search_reaches pick h c is_warrior NEED_HEAL WEAPON init st \<Longrightarrow> s_Q st \<noteq> []
         \<Longrightarrow> search_reaches pick h c is_warrior NEED_HEAL WEAPON init
               (search_step pick h c is_warrior NEED_HEAL WEAPON st)"

text \<open>The notions of the proof that the distances stay in range.\<close>

definition cw :: "host \<Rightarrow> ai \<Rightarrow> int \<Rightarrow> Pos \<Rightarrow> int" where
  "cw h s W p = move_cost h s W p + 4"

definition cost_sum :: "host \<Rightarrow> ai \<Rightarrow> int \<Rightarrow> Pos set \<Rightarrow> int" where
  "cost_sum h s W V = sum (cw h s W) V"

definition weapon_inv :: "host \<Rightarrow> ai \<Rightarrow> int \<Rightarrow> search \<Rightarrow> bool" where
  "weapon_inv h s W st =
     (s_visited st \<subseteq> {p. pos_ok h p}
      \<and> (\<forall>v \<in> set (s_Q st). pos_ok h (v_pos v) \<and> 0 \<le> s_dist st (v_pos v)
            \<and> s_dist st (v_pos v) \<le> cost_sum h s W (s_visited st) + move_cost h s W (v_pos v))
      \<and> (\<forall>p. board s p \<ge> GUN \<longrightarrow> p \<notin> s_visited st \<longrightarrow> 1 \<le> s_dist st p)
      \<and> same_world s (world st)
      \<and> (\<forall>p. bonus_lookup (bonus_distances (world st)) p = bonus_lookup (bonus_distances s) p))"

definition mid_inv :: "host \<Rightarrow> ai \<Rightarrow> int \<Rightarrow> Pos \<Rightarrow> search \<Rightarrow> bool" where
  "mid_inv h s W u st =
     (weapon_inv h s W st \<and> u \<in> s_visited st \<and> 0 \<le> s_dist st u
      \<and> s_dist st u \<le> cost_sum h s W (s_visited st))"

definition well_costed :: "host \<Rightarrow> ai \<Rightarrow> int \<Rightarrow> bool" where
  "well_costed h s W =
     (host_ok h \<and> (\<forall>p. pos_ok h p \<longrightarrow> board s p \<le> ENEMY_BUILDER \<longrightarrow> 0 \<le> board_enemy s p)
      \<and> 2 * cost_sum h s W {p. pos_ok h p} < USHRT_MAX)"

definition seeds_inv :: "host \<Rightarrow> ai \<Rightarrow> int \<Rightarrow> Pos \<Rightarrow> (Pos \<Rightarrow> int) \<times> Vertex list \<Rightarrow> bool" where
  "seeds_inv h s W origin = (\<lambda>(dist, Q).
     (\<forall>v \<in> set Q. pos_ok h (v_pos v) \<and> 0 \<le> dist (v_pos v) \<and> dist (v_pos v) \<le> move_cost h s W (v_pos v))
     \<and> (\<forall>p. board s p \<ge> GUN \<longrightarrow> p \<noteq> origin \<longrightarrow> 1 \<le> dist p))"

section \<open>Example inputs\<close>

text \<open>Two policies for the choice of \<^verbatim>\<open>top\<close> among equal elements.\<close>

definition first_top :: "'a list \<Rightarrow> nat" where
  "first_top xs = 0"

definition last_top :: "'a list \<Rightarrow> nat" where
  "last_top xs = length xs - 1"

definition instr_a :: Instr where
  "instr_a = \<lparr>priority = 0, is_build = False, uid = 1, dir = Up\<rparr>"

definition instr_b :: Instr where
  "instr_b = \<lparr>priority = 0, is_build = True, uid = 2, dir = Left\<rparr>"


definition c3_host :: host where
  "c3_host = \<lparr>board_rows = 1, board_cols = 2,
     cell = (\<lambda>p. \<lparr>cell_type = Street, cell_bonus = NoBonus, cell_weapon = NoWeapon,
        cell_id = (if p = (0, 0) then 1 else 2), cell_resistance = - 1, cell_b_owner = - 1\<rparr>),
     citizen = (\<lambda>i. if i = 1
        then \<lparr>cit_type = Warrior, cit_weapon = Hammer, cit_pos = (0, 0), cit_life = 50, cit_player = 1\<rparr>
        else \<lparr>cit_type = Warrior, cit_weapon = Bazooka, cit_pos = (0, 1), cit_life = 60, cit_player = 1\<rparr>),
     me = 0, cur_round = 0, is_round_day = (\<lambda>r. True), life_lost_in_attack = 20,
     builder_strength_demolish = 3, hammer_strength_demolish = 10, gun_strength_demolish = 10,
     bazooka_strength_demolish = 10, warrior_ini_life = 100, builder_ini_life = 60,
     max_num_barricades = 3, barricade_max_resistance = 80\<rparr>"

definition c3_ai :: ai where
  "c3_ai = \<lparr>sz_n = 1, sz_m = 2, Board = (\<lambda>p. 0), Board_Enemy = (\<lambda>p. 0), Board_Barricades = (\<lambda>p. 0),
     num_barricades = 0, instruction_buffer = [], bonus_distances = Map.empty,
     bonus_distances_prev = Map.empty\<rparr>"

text \<open>
  A board of one row: money at \<open>(0, 0)\<close>, an empty barricade of the player with resistance
  40 at \<open>(0, 1)\<close>, a warrior of the player at \<open>(0, 2)\<close>.
\<close>

definition street :: Cell where
  "street = \<lparr>cell_type = Street, cell_bonus = NoBonus, cell_weapon = NoWeapon, cell_id = - 1,
     cell_resistance = - 1, cell_b_owner = - 1\<rparr>"

definition c5_host :: host where
  "c5_host = \<lparr>board_rows = 1, board_cols = 3,
     cell = (\<lambda>p. if p = (0, 0) then street\<lparr>cell_bonus := Money\<rparr>
        else if p = (0, 1) then street\<lparr>cell_resistance := 40, cell_b_owner := 0\<rparr>
        else street\<lparr>cell_id := 7\<rparr>),
     citizen = (\<lambda>i. \<lparr>cit_type = Warrior, cit_weapon = Hammer, cit_pos = (0, 2), cit_life = 50,
        cit_player = 0\<rparr>),
     me = 0, cur_round = 0, is_round_day = (\<lambda>r. True), life_lost_in_attack = 20,
     builder_strength_demolish = 3, hammer_strength_demolish = 10, gun_strength_demolish = 10,
     bazooka_strength_demolish = 10, warrior_ini_life = 100, builder_ini_life = 60,
     max_num_barricades = 3, barricade_max_resistance = 80\<rparr>"

definition c5_ai :: ai where
  "c5_ai = \<lparr>sz_n = 1, sz_m = 3, Board = (\<lambda>p. 0), Board_Enemy = (\<lambda>p. 0), Board_Barricades = (\<lambda>p. 0),
     num_barricades = 0, instruction_buffer = [], bonus_distances = Map.empty,
     bonus_distances_prev = Map.empty\<rparr>"

text \<open>
  Boards for the planner. The citizen 1 is the unit of the player, at \<open>(0, 0)\<close>; the rounds
  of \<open>base_host\<close> are nights.
\<close>

definition base_host :: host where
  "base_host = \<lparr>board_rows = 1, board_cols = 3, cell = (\<lambda>p. street),
     citizen = (\<lambda>i. \<lparr>cit_type = Warrior, cit_weapon = Hammer, cit_pos = (0, 0), cit_life = 50,
        cit_player = 0\<rparr>),
     me = 0, cur_round = 0, is_round_day = (\<lambda>r. False), life_lost_in_attack = 20,
     builder_strength_demolish = 3, hammer_strength_demolish = 10, gun_strength_demolish = 10,
     bazooka_strength_demolish = 10, warrior_ini_life = 100, builder_ini_life = 60,
     max_num_barricades = 3, barricade_max_resistance = 80\<rparr>"

definition base_ai :: "int \<Rightarrow> int \<Rightarrow> ai" where
  "base_ai n m = \<lparr>sz_n = n, sz_m = m, Board = (\<lambda>p. 0), Board_Enemy = (\<lambda>p. 0), Board_Barricades = (\<lambda>p. 0),
     num_barricades = 0, instruction_buffer = [], bonus_distances = Map.empty,
     bonus_distances_prev = Map.empty\<rparr>"

definition my_hammer :: Citizen where
  "my_hammer = \<lparr>cit_type = Warrior, cit_weapon = Hammer, cit_pos = (0, 0), cit_life = 50, cit_player = 0\<rparr>"
definition my_builder :: Citizen where
  "my_builder = \<lparr>cit_type = Builder, cit_weapon = NoWeapon, cit_pos = (0, 0), cit_life = 50, cit_player = 0\<rparr>"
definition enemy_gun :: Citizen where
  "enemy_gun = \<lparr>cit_type = Warrior, cit_weapon = Gun, cit_pos = (0, 2), cit_life = 50, cit_player = 1\<rparr>"
definition enemy_bazooka :: Citizen where
  "enemy_bazooka = \<lparr>cit_type = Warrior, cit_weapon = Bazooka, cit_pos = (0, 2), cit_life = 50, cit_player = 1\<rparr>"
definition enemy_builder :: Citizen where
  "enemy_builder = \<lparr>cit_type = Builder, cit_weapon = NoWeapon, cit_pos = (0, 1), cit_life = 10, cit_player = 1\<rparr>"

definition grab_host :: host where
  "grab_host = base_host\<lparr>
     cell := (\<lambda>p. if p = (0, 0) then street\<lparr>cell_id := 1\<rparr>
        else if p = (0, 1) then street\<lparr>cell_weapon := Gun\<rparr>
        else street\<lparr>cell_id := 2\<rparr>),
     citizen := (\<lambda>i. if i = 1 then my_hammer else enemy_gun)\<rparr>"





definition build_host :: host where
  "build_host = base_host\<lparr>board_cols := 2, is_round_day := (\<lambda>r. True),
     cell := (\<lambda>p. if p = (0, 0) then street\<lparr>cell_id := 1\<rparr> else street),
     citizen := (\<lambda>i. my_builder)\<rparr>"

definition money_host :: host where
  "money_host = base_host\<lparr>is_round_day := (\<lambda>r. True),
     cell := (\<lambda>p. if p = (0, 0) then street\<lparr>cell_id := 1\<rparr> else if p = (0, 2) then street\<lparr>cell_bonus := Money\<rparr> else street),
     citizen := (\<lambda>i. my_hammer)\<rparr>"

text \<open>
  A state of the search at the moment it dequeues the money at \<open>(0, 2)\<close>, with the distance
  of the unit, the recorded distance of the closest citizen and the one of the last round.
\<close>

definition c4_world :: "int \<Rightarrow> int \<Rightarrow> ai" where
  "c4_world closest prev = (base_ai 1 3)\<lparr>Board := (\<lambda>p. if p = (0, 2) then MONEY else EMPTY),
     bonus_distances := [(0, 2) \<mapsto> \<lparr>bi_type = CHR ''M'', closest_dist = closest, closest_is_friendly = False\<rparr>],
     bonus_distances_prev := [(0, 2) \<mapsto> \<lparr>bi_type = CHR ''M'', closest_dist = prev, closest_is_friendly = False\<rparr>]\<rparr>"

definition c4_search :: "int \<Rightarrow> int \<Rightarrow> int \<Rightarrow> search" where
  "c4_search distance closest prev = \<lparr>s_dist = (\<lambda>p. distance), s_visited = {}, s_Q = [], best_dir = Left,
     best_profit = INT_MIN, take_ownership = None, take_ownership_dist = 0,
     world = c4_world closest prev\<rparr>"

text \<open>
  A builder at \<open>(0, 0)\<close> and a gun at \<open>(0, 2)\<close>, by day: no citizen is entitled to the gun.
\<close>

definition lone_gun_host :: host where
  "lone_gun_host = base_host\<lparr>is_round_day := (\<lambda>r. True),
     cell := (\<lambda>p. if p = (0, 0) then street\<lparr>cell_id := 1\<rparr>
        else if p = (0, 2) then street\<lparr>cell_weapon := Gun\<rparr> else street),
     citizen := (\<lambda>i. my_builder)\<rparr>"

text \<open>
  A hammer warrior at \<open>(1, 1)\<close> between two guns, above and below; an enemy bazooka at
  \<open>(0, 0)\<close> stands beside the gun above.
\<close>

definition two_guns_host :: host where
  "two_guns_host = base_host\<lparr>board_rows := 3,
     cell := (\<lambda>p. if p = (1, 1) then street\<lparr>cell_id := 1\<rparr>
        else if p = (0, 1) then street\<lparr>cell_weapon := Gun\<rparr>
        else if p = (2, 1) then street\<lparr>cell_weapon := Gun\<rparr>
        else if p = (0, 0) then street\<lparr>cell_id := 3\<rparr>
        else street),
     citizen := (\<lambda>i. if i = 1 then my_hammer\<lparr>cit_pos := (1, 1)\<rparr>
        else enemy_bazooka\<lparr>cit_pos := (0, 0)\<rparr>)\<rparr>"

text \<open>
  A board of one row: an enemy gun of health 50, an empty cell, an enemy bazooka of health
  60 and a warrior of the player of health 200.
\<close>

definition halo_host :: host where
  "halo_host = \<lparr>board_rows = 1, board_cols = 4,
     cell = (\<lambda>p. \<lparr>cell_type = Street, cell_bonus = NoBonus, cell_weapon = NoWeapon,
        cell_id = (if p = (0, 0) then 1 else if p = (0, 2) then 2 else if p = (0, 3) then 3 else - 1),
        cell_resistance = - 1, cell_b_owner = - 1\<rparr>),
     citizen = (\<lambda>i. if i = 1
        then \<lparr>cit_type = Warrior, cit_weapon = Gun, cit_pos = (0, 0), cit_life = 50, cit_player = 1\<rparr>
        else if i = 2
        then \<lparr>cit_type = Warrior, cit_weapon = Bazooka, cit_pos = (0, 2), cit_life = 60, cit_player = 1\<rparr>
        else \<lparr>cit_type = Warrior, cit_weapon = Hammer, cit_pos = (0, 3), cit_life = 200, cit_player = 0\<rparr>),
     me = 0, cur_round = 0, is_round_day = (\<lambda>r. True), life_lost_in_attack = 20,
     builder_strength_demolish = 3, hammer_strength_demolish = 10, gun_strength_demolish = 10,
     bazooka_strength_demolish = 10, warrior_ini_life = 100, builder_ini_life = 60,
     max_num_barricades = 3, barricade_max_resistance = 80\<rparr>"

definition halo_ai :: ai where
  "halo_ai = \<lparr>sz_n = 1, sz_m = 4, Board = (\<lambda>p. 0), Board_Enemy = (\<lambda>p. 0), Board_Barricades = (\<lambda>p. 0),
     num_barricades = 0, instruction_buffer = [], bonus_distances = Map.empty,
     bonus_distances_prev = Map.empty\<rparr>"

text \<open>
  The board of \<open>build_host\<close> with an own barricade of resistance 40, half the maximum, on
  the cell beside the builder; and the board of \<open>build_host\<close> with a quota of no barricade.
\<close>

definition improve_host :: host where
  "improve_host = build_host\<lparr>cell := (\<lambda>p. if p = (0, 0) then street\<lparr>cell_id := 1\<rparr>
        else street\<lparr>cell_resistance := 40, cell_b_owner := 0\<rparr>)\<rparr>"

definition quota_host :: host where
  "quota_host = build_host\<lparr>max_num_barricades := 0\<rparr>"


text \<open>
  A board of one row where every round is a day: a gun warrior of the player at \<open>(0, 0)\<close>,
  an enemy builder of health 230 at \<open>(0, 1)\<close> and a gun at \<open>(0, 2)\<close>. The health does not
  fit the \<^verbatim>\<open>char\<close> cell of \<^verbatim>\<open>Board_Enemy\<close>, which reads \<open>- 26\<close>.
\<close>

definition my_gun :: Citizen where
  "my_gun = \<lparr>cit_type = Warrior, cit_weapon = Gun, cit_pos = (0, 0), cit_life = 50, cit_player = 0\<rparr>"

definition wrap_host :: host where
  "wrap_host = base_host\<lparr>is_round_day := (\<lambda>r. True),
     cell := (\<lambda>p. if p = (0, 0) then street\<lparr>cell_id := 1\<rparr>
        else if p = (0, 1) then street\<lparr>cell_id := 2\<rparr>
        else street\<lparr>cell_weapon := Gun\<rparr>),
     citizen := (\<lambda>i. if i = 1 then my_gun else enemy_builder\<lparr>cit_life := 230\<rparr>)\<rparr>"

section \<open>Properties\<close>

subsection \<open>Order of the submitted instructions\<close>

text \<open>
  C2, as the code has it. The instructions leave the buffer by priority, greatest first, and
  among equal priorities by unit id, greatest first: the sequence of the pairs (priority,
  unit id) is the sorted sequence of the pairs in the buffer, reversed, whatever the order
  of insertion and the choice among equal elements. When no two instructions of the buffer
  share the pair, the sequence of instructions itself is the same for every order of
  insertion.
\<close>

theorem flush_order:
  "map instr_key (drain pick Q) = rev (sort (map instr_key Q))
   \<and> (distinct (map instr_key Q) \<longrightarrow> mset Q' = mset Q \<longrightarrow> drain pick' Q' = drain pick Q)"
proof -
  have "drain pick' Q' = drain pick Q" if d: "distinct (map instr_key Q)" and m: "mset Q' = mset Q"
  proof -
    have "mset (sort (map instr_key Q)) = mset (map instr_key Q')"
      by (simp add: m)
    then have "sort (map instr_key Q') = sort (map instr_key Q)"
      by (rule properties_for_sort) simp
    then have "map instr_key (drain pick' Q') = map instr_key (drain pick Q)"
      by (simp add: keys_drain)
    moreover have "set Q' = set Q"
      using m by (rule mset_eq_setD)
    then have "inj_on instr_key (set (drain pick' Q') \<union> set (drain pick Q))"
      using d by (simp add: set_drain distinct_map)
    ultimately show ?thesis by (simp add: inj_on_map_eq_map)
  qed
  then show ?thesis by (simp add: keys_drain)
qed

theorem flush_order_witness:
  "distinct (map instr_key [instr_a, instr_b]) \<and> mset [instr_b, instr_a] = mset [instr_a, instr_b]
   \<and> drain last_top [instr_b, instr_a] = drain first_top [instr_a, instr_b]
   \<and> map instr_key (drain first_top [instr_a, instr_b]) = [(0, 2), (0, 1)]"
  using flush_order [of first_top "[instr_a, instr_b]" "[instr_b, instr_a]" last_top]
  by (simp add: instr_key_def instr_a_def instr_b_def)

text \<open>
  C2 as the specification states it asks for ascending unit ids among equal priorities. Two
  moves of priority 0 by the units 1 and 2 are sent in the order 2, 1.
\<close>

theorem flush_order_counterexample:
  "map uid (drain first_top [instr_a, instr_b]) = [2, 1]"
  by (simp add: drain.simps pq_top_def pq_pop_def maxima_def instr_less_def first_top_def
      instr_a_def instr_b_def)

subsection \<open>The matrices after \<^verbatim>\<open>build_board\<close>\<close>

lemma set_all_pos: "set (all_pos n m) = {p. 0 \<le> fst p \<and> fst p < n \<and> 0 \<le> snd p \<and> snd p < m}"
  by (auto simp: all_pos_def)

lemma enemy_of_range: "enemy_of c \<in> {ENEMY_BUILDER, ENEMY_HAMMER, ENEMY_GUN, ENEMY_BAZOOKA}"
  by (simp add: enemy_of_def)

lemma enemy_of_le: "enemy_of c \<le> ENEMY_BUILDER"
  by (simp add: enemy_of_def board_consts)

lemma cell_code_enemy:
  "cell_code h p \<le> ENEMY_BUILDER \<longleftrightarrow>
     (cell_type (cell h p) \<noteq> Building \<and> cell_bonus (cell h p) \<noteq> Food \<and> cell_bonus (cell h p) \<noteq> Money
      \<and> cell_weapon (cell h p) \<noteq> Gun \<and> cell_weapon (cell h p) \<noteq> Bazooka \<and> cell_id (cell h p) \<noteq> - 1
      \<and> cit_player (citizen h (cell_id (cell h p))) \<noteq> me h)"
  using enemy_of_le [of "citizen h (cell_id (cell h p))"]
  by (auto simp: cell_code_def Let_def board_consts)


lemma set_board_sel [simp]:
  "Board (set_board p v s) = (Board s)(p := v)"
  "Board_Enemy (set_board p v s) = Board_Enemy s"
  by (simp_all add: set_board_def)

lemma bonus_insert_sel [simp]:
  "Board (bonus_insert p i s) = Board s"
  "Board_Enemy (bonus_insert p i s) = Board_Enemy s"
  by (simp_all add: bonus_insert_def split: option.splits)

lemma danger_at_sel [simp]:
  "Board (danger_at h p e s) = Board s"
  "Board_Enemy (danger_at h p e s) =
     (if pos_ok h p then (Board_Enemy s)(p := update_danger (Board_Enemy s p) e) else Board_Enemy s)"
  by (simp_all add: danger_at_def)


lemma enemy_cell_Board [simp]: "Board (enemy_cell h p cit s) = (Board s)(p := enemy_of cit)"
  by (simp add: enemy_cell_def Let_def)

lemma enemy_cell_Board_Enemy:
  "Board_Enemy (enemy_cell h p cit s) q =
     (if q = p then to_char (cit_life cit)
      else if q \<in> set (nbrs p) \<and> pos_ok h q then update_danger (Board_Enemy s q) (enemy_of cit)
      else Board_Enemy s q)"
proof -
  obtain i j where p: "p = (i, j)" by (cases p)
  show ?thesis
    by (auto simp: p enemy_cell_def Let_def nbrs_def Directions_def)
qed

lemma Board_board_cell: "Board (board_cell h p s) = (Board s)(p := cell_code h p)"
  by (simp add: board_cell_def cell_code_def Let_def)

lemma Board_fold_board_cell:
  "Board (fold (board_cell h) ps s) q = (if q \<in> set ps then cell_code h q else Board s q)"
  by (induction ps arbitrary: s) (simp_all add: Board_board_cell)

lemma Board_Enemy_board_cell:
  "Board_Enemy (board_cell h p s) =
     (if cell_code h p \<le> ENEMY_BUILDER
      then Board_Enemy (enemy_cell h p (citizen h (cell_id (cell h p))) s) else Board_Enemy s)"
  by (simp add: cell_code_enemy board_cell_def Let_def)

lemma nbrs_sym: "q \<in> set (nbrs p) \<longleftrightarrow> p \<in> set (nbrs q)"
  by (cases p; cases q) (auto simp: nbrs_def Directions_def)

lemma nbrs_irrefl: "p \<notin> set (nbrs p)"
  by (cases p) (auto simp: nbrs_def Directions_def)

lemma halo_finite: "finite (cell_code h ` {r \<in> set (nbrs q). r \<in> D \<and> cell_code h r \<le> ENEMY_BUILDER})"
  by simp

lemma halo_le: "halo h D q \<le> 0"
  unfolding halo_def by (rule Min_le) (simp_all add: halo_finite)

lemma halo_empty: "halo h {} q = 0"
  by (simp add: halo_def)

lemma halo_insert:
  "halo h (insert p D) q =
     (if cell_code h p \<le> ENEMY_BUILDER \<and> p \<in> set (nbrs q)
      then min (cell_code h p) (halo h D q) else halo h D q)"
proof -
  let ?H = "\<lambda>D. cell_code h ` {r \<in> set (nbrs q). r \<in> D \<and> cell_code h r \<le> ENEMY_BUILDER}"
  show ?thesis
  proof (cases "cell_code h p \<le> ENEMY_BUILDER \<and> p \<in> set (nbrs q)")
    case True
    then have "?H (insert p D) = insert (cell_code h p) (?H D)"
      by auto
    then have "halo h (insert p D) q = Min (insert (cell_code h p) (insert 0 (?H D)))"
      by (simp add: halo_def insert_commute)
    also have "\<dots> = min (cell_code h p) (Min (insert 0 (?H D)))"
      by (rule Min_insert) (simp_all add: halo_finite)
    finally show ?thesis using True by (simp add: halo_def)
  next
    case False
    then have "?H (insert p D) = ?H D"
      by auto
    then have "halo h (insert p D) q = halo h D q"
      by (simp add: halo_def)
    then show ?thesis using False by auto
  qed
qed

lemma to_char_id: "- 128 \<le> x \<Longrightarrow> x \<le> 127 \<Longrightarrow> to_char x = x"
  by (simp add: to_char_def)

lemma halo_inv_step:
  assumes inv: "halo_inv h D (Board_Enemy s)"
  shows "halo_inv h (insert p D) (Board_Enemy (board_cell h p s))"
proof (cases "cell_code h p \<le> ENEMY_BUILDER")
  case False
  show ?thesis
    unfolding halo_inv_def
  proof (intro allI impI conjI)
    fix q assume q: "pos_ok h q"
    note old = inv [unfolded halo_inv_def, rule_format, OF q]
    show "Board_Enemy (board_cell h p s) q = halo h (insert p D) q" if "\<not> cell_code h q \<le> ENEMY_BUILDER"
      using old that False by (simp add: Board_Enemy_board_cell halo_insert)
    show "Board_Enemy (board_cell h p s) q = to_char (cit_life (citizen h (cell_id (cell h q))))"
      if "cell_code h q \<le> ENEMY_BUILDER" "q \<in> insert p D"
        "0 < to_char (cit_life (citizen h (cell_id (cell h q))))"
    proof -
      from that(1) False have "q \<noteq> p" by auto
      with that old False show ?thesis by (simp add: Board_Enemy_board_cell)
    qed
  qed
next
  case True
  let ?life = "\<lambda>q. to_char (cit_life (citizen h (cell_id (cell h q))))"
  have be: "Board_Enemy (board_cell h p s) q =
     (if q = p then ?life p
      else if q \<in> set (nbrs p) \<and> pos_ok h q then update_danger (Board_Enemy s q) (cell_code h p)
      else Board_Enemy s q)" for q
  proof -
    have "cell_code h p = enemy_of (citizen h (cell_id (cell h p)))"
      using True by (auto simp: cell_code_enemy) (simp add: cell_code_def)
    then show ?thesis
      using True by (simp add: Board_Enemy_board_cell enemy_cell_Board_Enemy)
  qed
  show ?thesis
    unfolding halo_inv_def
  proof (intro allI impI conjI)
    fix q assume q: "pos_ok h q"
    note old = inv [unfolded halo_inv_def, rule_format, OF q]
    show "Board_Enemy (board_cell h p s) q = halo h (insert p D) q" if ne: "\<not> cell_code h q \<le> ENEMY_BUILDER"
    proof -
      from ne True have qp: "q \<noteq> p" by auto
      from old ne have o: "Board_Enemy s q = halo h D q" by simp
      show ?thesis
      proof (cases "q \<in> set (nbrs p)")
        case False
        then have "p \<notin> set (nbrs q)" by (simp add: nbrs_sym)
        then show ?thesis using qp False o by (simp add: be halo_insert)
      next
        case nb: True
        then have pn: "p \<in> set (nbrs q)" by (simp add: nbrs_sym)
        have "halo h D q \<le> 0" by (rule halo_le)
        then have "update_danger (Board_Enemy s q) (cell_code h p) = min (cell_code h p) (halo h D q)"
          using o by (auto simp: update_danger_def)
        then show ?thesis
          using qp nb q pn True by (simp add: be halo_insert)
      qed
    qed
    show "Board_Enemy (board_cell h p s) q = ?life q"
      if en: "cell_code h q \<le> ENEMY_BUILDER" and qd: "q \<in> insert p D" and pos: "0 < ?life q"
    proof (cases "q = p")
      case True
      then show ?thesis by (simp add: be)
    next
      case qp: False
      with qd have "q \<in> D" by simp
      with old en pos have o: "Board_Enemy s q = ?life q" by simp
      with pos show ?thesis
        using qp by (simp add: be update_danger_def)
    qed
  qed
qed

lemma halo_inv_fold:
  "halo_inv h D (Board_Enemy s)
   \<Longrightarrow> halo_inv h (D \<union> set ps) (Board_Enemy (fold (board_cell h) ps s))"
proof (induction ps arbitrary: D s)
  case Nil
  then show ?case by simp
next
  case (Cons p ps)
  from halo_inv_step [OF Cons.prems] have "halo_inv h (insert p D) (Board_Enemy (board_cell h p s))" .
  from Cons.IH [OF this] show ?case by simp
qed

lemma Board_Enemy_zero_fold:
  "Board_Enemy (fold (\<lambda>p t. t\<lparr>Board_Enemy := (Board_Enemy t)(p := 0)\<rparr>) ps s) q =
     (if q \<in> set ps then 0 else Board_Enemy s q)"
  by (induction ps arbitrary: s) simp_all

lemma build_board_sel [simp]:
  "Board (build_board pick h s) = Board (build_matrices h s)"
  "Board_Enemy (build_board pick h s) = Board_Enemy (build_matrices h s)"
  "Board_Barricades (build_board pick h s) = Board_Barricades (build_matrices h s)"
  by (simp_all add: build_board_def Let_def)

lemma pos_ok_all_pos: "p \<in> set (all_pos (board_rows h) (board_cols h)) \<longleftrightarrow> pos_ok h p"
  by (simp add: set_all_pos pos_ok_def)

lemma Board_build_matrices:
  assumes "sz_n s = board_rows h" "sz_m s = board_cols h" "pos_ok h p"
  shows "Board (build_matrices h s) p = cell_code h p"
  using assms by (simp add: build_matrices_def Let_def Board_fold_board_cell pos_ok_all_pos)

lemma halo_inv_build_matrices:
  assumes "sz_n s = board_rows h" "sz_m s = board_cols h"
  shows "halo_inv h {q. pos_ok h q} (Board_Enemy (build_matrices h s))"
proof -
  let ?ps = "all_pos (board_rows h) (board_cols h)"
  let ?s1 = "fold (\<lambda>p t. t\<lparr>Board_Enemy := (Board_Enemy t)(p := 0)\<rparr>) ?ps (s\<lparr>bonus_distances := Map.empty\<rparr>)"
  have "halo_inv h {} (Board_Enemy ?s1)"
    by (simp add: halo_inv_def Board_Enemy_zero_fold pos_ok_all_pos halo_empty)
  from halo_inv_fold [OF this, of ?ps]
  have "halo_inv h (set ?ps) (Board_Enemy (fold (board_cell h) ?ps ?s1))" by simp
  moreover have "set ?ps = {q. pos_ok h q}"
    by (auto simp: pos_ok_all_pos)
  ultimately show ?thesis
    using assms(1,2) by (simp add: build_matrices_def Let_def)
qed

lemma halo_min_list:
  "halo h {q. pos_ok h q} p =
     min_list (0 # map (cell_code h) (filter (\<lambda>q. pos_ok h q \<and> cell_code h q \<le> ENEMY_BUILDER) (nbrs p)))"
proof -
  have "set (0 # map (cell_code h) (filter (\<lambda>q. pos_ok h q \<and> cell_code h q \<le> ENEMY_BUILDER) (nbrs p)))
      = insert 0 (cell_code h ` {r \<in> set (nbrs p). r \<in> {q. pos_ok h q} \<and> cell_code h r \<le> ENEMY_BUILDER})"
    by auto
  then show ?thesis
    unfolding halo_def by (subst min_list_Min) simp_all
qed

lemmas build_eval = build_board_def build_matrices_def all_pos_def board_cell_def enemy_cell_def
  set_board_def bonus_insert_def danger_at_def update_danger_def enemy_of_def to_char_def
  board_def pos_ok_def Directions_def Let_def board_consts upto.simps

text \<open>
  C3, as the code has it. After \<^verbatim>\<open>build_board\<close>, every cell of the board that does not hold
  an enemy has in \<^verbatim>\<open>Board_Enemy\<close> the ordinal of the strongest enemy in its four adjacent
  cells, or zero when there is none, whatever the health of the citizens. A cell that holds
  an enemy has the health of that enemy instead, when this health is between 1 and 127 and
  so fits the \<^verbatim>\<open>char\<close> cell as a positive value. The merge keeps the stronger value:
  \<^verbatim>\<open>update_danger\<close> leaves a cell that is at most the new ordinal.
\<close>

theorem threat_halo:
  assumes "sz_n s = board_rows h" and "sz_m s = board_cols h" and "pos_ok h p"
  shows "(\<not> Board (build_board pick h s) p \<le> ENEMY_BUILDER \<longrightarrow>
            Board_Enemy (build_board pick h s) p = strongest_adjacent h (build_board pick h s) p)
     \<and> (Board (build_board pick h s) p \<le> ENEMY_BUILDER \<longrightarrow>
            0 < cit_life (citizen h (cell_id (cell h p))) \<longrightarrow>
            cit_life (citizen h (cell_id (cell h p))) \<le> 127 \<longrightarrow>
            Board_Enemy (build_board pick h s) p = cit_life (citizen h (cell_id (cell h p))))
     \<and> (c \<le> e \<longrightarrow> update_danger c e = c)"
proof -
  let ?s = "build_matrices h s"
  let ?L = "cit_life (citizen h (cell_id (cell h p)))"
  have B: "Board ?s q = cell_code h q" if "pos_ok h q" for q
    using assms(1,2) that by (rule Board_build_matrices)
  note inv = halo_inv_build_matrices [OF assms(1,2), unfolded halo_inv_def, rule_format, OF assms(3)]
  have f: "filter (\<lambda>q. pos_ok h q \<and> board (build_board pick h s) q \<le> ENEMY_BUILDER) (map (step p) Directions)
      = filter (\<lambda>q. pos_ok h q \<and> cell_code h q \<le> ENEMY_BUILDER) (nbrs p)"
    unfolding nbrs_def by (rule filter_cong) (auto simp: board_def B)
  have m: "map (board (build_board pick h s)) (filter (\<lambda>q. pos_ok h q \<and> cell_code h q \<le> ENEMY_BUILDER) (nbrs p))
      = map (cell_code h) (filter (\<lambda>q. pos_ok h q \<and> cell_code h q \<le> ENEMY_BUILDER) (nbrs p))"
    by (rule map_cong) (auto simp: board_def B)
  have sa: "strongest_adjacent h (build_board pick h s) p = halo h {q. pos_ok h q} p"
    by (simp only: strongest_adjacent_def halo_min_list f m)
  have 1: "Board_Enemy (build_board pick h s) p = strongest_adjacent h (build_board pick h s) p"
    if "\<not> Board (build_board pick h s) p \<le> ENEMY_BUILDER"
    using that inv assms(3) by (simp add: B sa)
  have 2: "Board_Enemy (build_board pick h s) p = ?L"
    if "Board (build_board pick h s) p \<le> ENEMY_BUILDER" "0 < ?L" "?L \<le> 127"
  proof -
    have "to_char ?L = ?L" using that(2,3) by (simp add: to_char_id)
    with that inv assms(3) show ?thesis by (simp add: B)
  qed
  have 3: "c \<le> e \<longrightarrow> update_danger c e = c"
    by (simp add: update_danger_def)
  show ?thesis
    using 1 2 3 by blast
qed

theorem threat_halo_witness:
  "sz_n halo_ai = board_rows halo_host \<and> sz_m halo_ai = board_cols halo_host
   \<and> pos_ok halo_host (0, 1) \<and> pos_ok halo_host (0, 0)
   \<and> \<not> Board (build_board first_top halo_host halo_ai) (0, 1) \<le> ENEMY_BUILDER
   \<and> strongest_adjacent halo_host (build_board first_top halo_host halo_ai) (0, 1) = - 6
   \<and> Board_Enemy (build_board first_top halo_host halo_ai) (0, 1) = - 6
   \<and> Board (build_board first_top halo_host halo_ai) (0, 0) \<le> ENEMY_BUILDER
   \<and> cit_life (citizen halo_host (cell_id (cell halo_host (0, 0)))) = 50
   \<and> Board_Enemy (build_board first_top halo_host halo_ai) (0, 0) = 50
   \<and> update_danger (- 6) (- 4) = - 6"
proof -
  let ?s = "build_board first_top halo_host halo_ai"
  have 1: "sz_n halo_ai = board_rows halo_host" and 2: "sz_m halo_ai = board_cols halo_host"
    by (simp_all add: halo_host_def halo_ai_def)
  have 3: "pos_ok halo_host (0, 1)" and 4: "pos_ok halo_host (0, 0)"
    by (simp_all add: pos_ok_def halo_host_def)
  have 5: "\<not> Board ?s (0, 1) \<le> ENEMY_BUILDER" and 6: "Board ?s (0, 0) \<le> ENEMY_BUILDER"
    and 7: "strongest_adjacent halo_host ?s (0, 1) = - 6"
    by (simp_all add: halo_host_def halo_ai_def strongest_adjacent_def build_eval)
  have 8: "cit_life (citizen halo_host (cell_id (cell halo_host (0, 0)))) = 50"
    by (simp add: halo_host_def)
  have 9: "(- 6 :: int) \<le> - 4" by simp
  from threat_halo [OF 1 2 3, where pick = first_top and c = "- 6" and e = "- 4"] 5 7 9
  have a: "Board_Enemy ?s (0, 1) = - 6" and c: "update_danger (- 6) (- 4) = - 6"
    by simp_all
  from threat_halo [OF 1 2 4, where pick = first_top and c = "- 6" and e = "- 4"] 6 8
  have b: "Board_Enemy ?s (0, 0) = 50"
    by simp
  show ?thesis
    using 1 2 3 4 5 6 7 8 a b c by simp
qed

text \<open>
  C3 as the specification states it gives every cell the ordinal of its strongest adjacent
  enemy. A cell that holds an enemy itself has the health of that enemy instead: with a
  hammer enemy of health 50 at \<open>(0, 0)\<close> next to a bazooka enemy, the matrix has 50 at
  \<open>(0, 0)\<close>, and the strongest adjacent ordinal is \<open>- 6\<close>.
\<close>

theorem threat_halo_counterexample:
  "Board_Enemy (build_board first_top c3_host c3_ai) (0, 0) = 50
   \<and> strongest_adjacent c3_host (build_board first_top c3_host c3_ai) (0, 0) = - 6"
  by (simp add: c3_host_def c3_ai_def strongest_adjacent_def build_eval)

subsection \<open>The distance recorded by \<^verbatim>\<open>compute_closest\<close>\<close>

lemmas closest_eval = compute_closest_def closest_loop.simps closest_found_def closest_expand_def
  closest_edge_def pq_top_def pq_pop_def maxima_def vertex_less_def first_top_def
  board_barricades_def to_ushort_def cdiv_def USHRT_MAX_def Bonus_Info_of_def
  Bonus_Info_default_def my_weapon_def

text \<open>
  The matrix of the barricades has no influence on what \<^verbatim>\<open>compute_closest\<close> records: the
  only value computed from it is the local \<^verbatim>\<open>distance\<close> of the loop over the directions.
\<close>

lemma closest_edge_barricades:
  "snd (closest_edge h (s\<lparr>Board_Barricades := B\<rparr>) u d (x, dist, Q)) = snd (closest_edge h s u d (y, dist, Q))"
  by (simp add: closest_edge_def Let_def board_def)

lemma closest_fold_barricades:
  "snd (fold (closest_edge h (s\<lparr>Board_Barricades := B\<rparr>) u) ds (x, dist, Q))
     = snd (fold (closest_edge h s u) ds (y, dist, Q))"
proof (induction ds arbitrary: x y dist Q)
  case Nil
  then show ?case by simp
next
  case (Cons d ds)
  obtain x1 r1 where a: "closest_edge h (s\<lparr>Board_Barricades := B\<rparr>) u d (x, dist, Q) = (x1, r1)"
    by (cases "closest_edge h (s\<lparr>Board_Barricades := B\<rparr>) u d (x, dist, Q)")
  obtain y1 r2 where b: "closest_edge h s u d (y, dist, Q) = (y1, r2)"
    by (cases "closest_edge h s u d (y, dist, Q)")
  have "r1 = r2"
    using closest_edge_barricades [where h = h and s = s and B = B and u = u and d = d and x = x
        and dist = dist and Q = Q and y = y] by (simp add: a b)
  then show ?case
    using Cons.IH [where x = x1 and dist = "fst r2" and Q = "snd r2" and y = y1] by (simp add: a b)
qed

lemma closest_expand_barricades:
  "closest_expand h (s\<lparr>Board_Barricades := B\<rparr>) u x dist Q = closest_expand h s u x dist Q"
  by (simp add: closest_expand_def closest_fold_barricades [where y = x])

lemma closest_found_barricades:
  "closest_found h (s\<lparr>Board_Barricades := B\<rparr>) W info u x = closest_found h s W info u x"
  by (simp add: closest_found_def board_def)

lemma closest_loop_barricades:
  "closest_loop pick h (s\<lparr>Board_Barricades := B\<rparr>) W info dist visited Q
     = closest_loop pick h s W info dist visited Q"
proof (induction pick h s W info dist visited Q rule: closest_loop.induct)
  case (1 pick h s W info dist visited Q)
  show ?case
    by (subst (1 2) closest_loop.simps)
       (auto simp: Let_def closest_found_barricades closest_expand_barricades "1.IH" split: option.splits)
qed

lemma compute_closest_barricades:
  "compute_closest pick h (s\<lparr>Board_Barricades := B\<rparr>) origin info = compute_closest pick h s origin info"
  by (simp add: compute_closest_def closest_loop_barricades board_def)

text \<open>
  C5. The search adds the turns to demolish a barricade to its local \<^verbatim>\<open>distance\<close>, which is
  read before the loop over the directions only; the distance of the new vertex is the
  distance of the dequeued one plus 1. With the barricade of resistance 40 on the only path
  between the money and the warrior and a demolition rate of 10, the recorded distance is
  2, where an edge cost of 1 + 40 / 10 into the barricade gives 6.
\<close>

theorem compute_closest_barricade:
  "bonus_distances (build_board first_top c5_host c5_ai) (0, 0)
     = Some \<lparr>bi_type = CHR ''M'', closest_dist = 2, closest_is_friendly = True\<rparr>
   \<and> Board_Barricades (build_board first_top c5_host c5_ai) (0, 1) = 40
   \<and> bazooka_strength_demolish c5_host = 10"
  by (simp add: c5_host_def c5_ai_def street_def build_eval closest_eval)

subsection \<open>The first loop of \<^verbatim>\<open>approach_target\<close>\<close>

lemma first_moves_Cons:
  "first_moves h s ident w origin W (d # ds) (dist, Q) =
     (if \<not> pos_ok h (step origin d) then first_moves h s ident w origin W ds (dist, Q)
      else if fst (no_brainer h s (step origin d) W w) then
        (if snd (no_brainer h s (step origin d) W w) < - board_enemy s (step origin d)
         then Inl (False, s) else Inl (True, push_move VERY_HIGH_PRIORITY ident d s))
      else if safe_cell h s (step origin d) W \<and> board s (step origin d) \<noteq> WALL
              \<and> \<not> is_danger h s (step origin d) W \<and> - board s (step origin d) < W
      then first_moves h s ident w origin W ds
             (dist(step origin d := add_movement_penalties h s (step origin d) 1 W),
              Q @ [\<lparr>v_dist = add_movement_penalties h s (step origin d) 1 W, v_pos = step origin d,
                     v_dir = d\<rparr>])
      else first_moves h s ident w origin W ds (dist, Q))"
  by (simp add: first_moves.simps Let_def split_beta)

lemma first_moves_no_brainer:
  "first_no_brainer h s origin W w ds = Some d \<Longrightarrow>
   first_moves h s ident w origin W ds (dist, Q) =
     (if snd (no_brainer h s (step origin d) W w) < - board_enemy s (step origin d)
      then Inl (False, s) else Inl (True, push_move VERY_HIGH_PRIORITY ident d s))"
proof (induction ds arbitrary: dist Q)
  case Nil
  then show ?case by (simp add: first_no_brainer_def)
next
  case (Cons e ds)
  show ?case
  proof (cases "pos_ok h (step origin e) \<and> fst (no_brainer h s (step origin e) W w)")
    case True
    with Cons.prems have "e = d" by (simp add: first_no_brainer_def)
    with True show ?thesis by (simp add: first_moves_Cons)
  next
    case False
    with Cons.prems have "first_no_brainer h s origin W w ds = Some d"
      by (auto simp: first_no_brainer_def)
    from Cons.IH [OF this] False show ?thesis
      by (auto simp: first_moves_Cons)
  qed
qed

lemma approach_target_fast:
  assumes "first_no_brainer h s (cit_pos (citizen h ident)) (my_weapon (citizen h ident)) w Directions = Some d"
  shows "approach_target pick h s ident w =
     (if snd (no_brainer h s (step (cit_pos (citizen h ident)) d) (my_weapon (citizen h ident)) w)
           < - board_enemy s (step (cit_pos (citizen h ident)) d)
      then (False, s) else (True, push_move VERY_HIGH_PRIORITY ident d s))"
  unfolding approach_target_def Let_def
  by (simp add: first_moves_no_brainer [OF assms])

lemma buffer_board_cell [simp]: "instruction_buffer (board_cell h p s) = instruction_buffer s"
  by (simp add: board_cell_def Let_def enemy_cell_def set_board_def bonus_insert_def danger_at_def
      split: option.splits)

lemma buffer_build_board [simp]: "instruction_buffer (build_board pick h s) = instruction_buffer s"
proof -
  have a: "instruction_buffer (fold (board_cell h) ps t) = instruction_buffer t" for ps t
    by (induction ps arbitrary: t) simp_all
  have b: "instruction_buffer (fold (\<lambda>p t. t\<lparr>Board_Enemy := (Board_Enemy t)(p := 0)\<rparr>) ps t)
      = instruction_buffer t" for ps t
    by (induction ps arbitrary: t) simp_all
  show ?thesis
    by (simp add: build_board_def build_matrices_def Let_def a b)
qed

lemma my_weapon_ge: "BUILDER \<le> my_weapon c"
  by (simp add: my_weapon_def board_consts)


lemma no_brainer_weapon:
  "BUILDER \<le> weapon \<Longrightarrow> Board s p > weapon \<Longrightarrow> no_brainer h s p weapon True = (True, Board s p)"
  by (simp add: no_brainer_def board_consts)

lemmas approach_eval = approach_target_def first_moves.simps safe_cell_def second_moves_def second_move_def search_loop.simps
  search_step_def evaluate_def money_cell_def weapon_cell_def better_def bd_get_def bd_prev_get_def
  search_expand_def search_edge_def commit_def barricade_threshold_def no_brainer_def is_danger_def
  is_day_def is_night_def is_round_night_def add_movement_penalties_def strength_demolish_def
  has_buildable_barricade_def to_int32_def is_stronger_def push_move_def push_build_def board_enemy_def
  first_no_brainer_def priority_consts profit_consts INT_MIN_def BARRICADE_THRESHOLD_def
  BARRICADE_INTERRUPT_THRESHOLD_def PERCENT_BUILD_def COST_WALK_INTO_FRIENDLY_def split_beta
  builder_day_task_def warrior_day_task_def builder_night_task_def warrior_night_task_def
  escape_def is_escape_route_def can_build_def can_build_safe_def host_ok_def

lemmas example_defs = base_host_def base_ai_def my_hammer_def my_builder_def enemy_gun_def
  enemy_bazooka_def enemy_builder_def street_def







text \<open>
  C9, as the code has it. When the deciding neighbour of a warrior, the first one in the
  order up, down, left, right that passes \<^verbatim>\<open>no_brainer\<close>, holds a weapon better than its own,
  the threat recorded for that cell is compared with the weapon on the cell: the move is
  pushed as soon as the threat is at most the tier of the new weapon, whatever the current
  weapon.
\<close>

theorem weapon_grab_new_tier:
  assumes "host_ok h" and "pos_ok h (cit_pos (citizen h ident))"
    and "first_no_brainer h s (cit_pos (citizen h ident)) (my_weapon (citizen h ident)) True
           Directions = Some d"
    and "Board s (step (cit_pos (citizen h ident)) d) > my_weapon (citizen h ident)"
    and "- board_enemy s (step (cit_pos (citizen h ident)) d) \<le> Board s (step (cit_pos (citizen h ident)) d)"
  shows "approach_target pick h s ident True = (True, push_move VERY_HIGH_PRIORITY ident d s)"
  using approach_target_fast [OF assms(3), of pick] assms(4,5)
  by (simp add: no_brainer_weapon [OF my_weapon_ge])


theorem weapon_grab_new_tier_witness:
  "host_ok grab_host \<and> pos_ok grab_host (cit_pos (citizen grab_host 1))
   \<and> my_weapon (citizen grab_host 1) = HAMMER
   \<and> Board (build_board first_top grab_host (base_ai 1 3)) (0, 1) = GUN
   \<and> - board_enemy (build_board first_top grab_host (base_ai 1 3)) (0, 1) = GUN
   \<and> instruction_buffer (snd (approach_target first_top grab_host
         (build_board first_top grab_host (base_ai 1 3)) 1 True))
      = [\<lparr>priority = 500, is_build = False, uid = 1, dir = Right\<rparr>]"
proof -
  let ?s = "build_board first_top grab_host (base_ai 1 3)"
  have 1: "host_ok grab_host"
    by (simp add: host_ok_def grab_host_def example_defs)
  have 2: "pos_ok grab_host (cit_pos (citizen grab_host 1))"
    by (simp add: pos_ok_def grab_host_def example_defs)
  have 3: "first_no_brainer grab_host ?s (cit_pos (citizen grab_host 1))
        (my_weapon (citizen grab_host 1)) True Directions = Some Right"
    by (simp add: grab_host_def example_defs build_eval closest_eval approach_eval)
  have 4: "Board ?s (step (cit_pos (citizen grab_host 1)) Right) > my_weapon (citizen grab_host 1)"
    by (simp add: grab_host_def example_defs build_eval my_weapon_def)
  have 5: "- board_enemy ?s (step (cit_pos (citizen grab_host 1)) Right)
      \<le> Board ?s (step (cit_pos (citizen grab_host 1)) Right)"
    by (simp add: grab_host_def example_defs build_eval board_enemy_def)
  have 6: "approach_target first_top grab_host ?s 1 True = (True, push_move VERY_HIGH_PRIORITY 1 Right ?s)"
    using weapon_grab_new_tier [OF 1 2 3 4 5, of first_top] .
  have 7: "instruction_buffer (push_move VERY_HIGH_PRIORITY 1 Right ?s)
      = [\<lparr>priority = 500, is_build = False, uid = 1, dir = Right\<rparr>]"
    by (simp add: push_move_def priority_consts base_ai_def)
  have 8: "my_weapon (citizen grab_host 1) = HAMMER"
    by (simp add: grab_host_def example_defs my_weapon_def)
  have 9: "Board ?s (0, 1) = GUN" "- board_enemy ?s (0, 1) = GUN"
    by (simp_all add: grab_host_def example_defs build_eval board_enemy_def)
  show ?thesis
    using 1 2 8 9 by (simp add: 6 7)
qed

text \<open>
  C9 as the specification states it has every warrior beside a strictly better weapon step
  onto it, as long as the threat beside the weapon does not exceed the tier of the weapon.
  The hammer warrior of \<open>two_guns_host\<close> has a gun below it with no enemy beside that cell;
  the gun above it, beside an enemy bazooka, is the first neighbour that passes
  \<^verbatim>\<open>no_brainer\<close>, and the planner holds: nothing is pushed.
\<close>

theorem weapon_grab_new_tier_counterexample:
  "cit_type (citizen two_guns_host 1) = Warrior \<and> my_weapon (citizen two_guns_host 1) = HAMMER
   \<and> step (cit_pos (citizen two_guns_host 1)) Down = (2, 1) \<and> pos_ok two_guns_host (2, 1)
   \<and> Board (build_board first_top two_guns_host (base_ai 3 3)) (2, 1) = GUN
   \<and> my_weapon (citizen two_guns_host 1) < GUN
   \<and> fst (no_brainer two_guns_host (build_board first_top two_guns_host (base_ai 3 3)) (2, 1) HAMMER True)
   \<and> - board_enemy (build_board first_top two_guns_host (base_ai 3 3)) (2, 1) = 0
   \<and> \<not> fst (approach_target first_top two_guns_host
         (build_board first_top two_guns_host (base_ai 3 3)) 1 True)
   \<and> instruction_buffer (snd (approach_target first_top two_guns_host
         (build_board first_top two_guns_host (base_ai 3 3)) 1 True)) = []"
  by (simp add: two_guns_host_def example_defs build_eval closest_eval approach_eval
      my_weapon_def)

subsection \<open>The move committed by \<^verbatim>\<open>approach_target\<close>\<close>

lemma first_moves_seeds:
  "first_moves h s ident w origin W ds (dist, Q) = Inr (dist', Q')
   \<Longrightarrow> \<forall>v \<in> set Q. seed_ok h s origin W w (v_dir v)
   \<Longrightarrow> (\<forall>v \<in> set Q'. seed_ok h s origin W w (v_dir v))
       \<and> (\<forall>d \<in> set ds. pos_ok h (step origin d) \<longrightarrow> \<not> fst (no_brainer h s (step origin d) W w))"
proof (induction ds arbitrary: dist Q)
  case Nil
  then show ?case by (simp add: first_moves.simps)
next
  case (Cons e ds)
  show ?case
  proof (cases "pos_ok h (step origin e)")
    case False
    with Cons.prems(1) have "first_moves h s ident w origin W ds (dist, Q) = Inr (dist', Q')"
      by (simp add: first_moves_Cons)
    from Cons.IH [OF this Cons.prems(2)] False show ?thesis by simp
  next
    case True
    have nb: "\<not> fst (no_brainer h s (step origin e) W w)"
    proof
      assume "fst (no_brainer h s (step origin e) W w)"
      with Cons.prems(1) True show False
        by (simp add: first_moves_Cons split: if_splits)
    qed
    let ?c = "safe_cell h s (step origin e) W \<and> board s (step origin e) \<noteq> WALL
        \<and> \<not> is_danger h s (step origin e) W \<and> - board s (step origin e) < W"
    let ?v = "\<lparr>v_dist = add_movement_penalties h s (step origin e) 1 W, v_pos = step origin e, v_dir = e\<rparr>"
    show ?thesis
    proof (cases ?c)
      case c: True
      with Cons.prems(1) True nb have r:
        "first_moves h s ident w origin W ds (dist(step origin e := add_movement_penalties h s (step origin e) 1 W), Q @ [?v])
           = Inr (dist', Q')"
        by (simp add: first_moves_Cons)
      have "\<forall>v \<in> set (Q @ [?v]). seed_ok h s origin W w (v_dir v)"
        using Cons.prems(2) c True nb by (simp add: seed_ok_def)
      from Cons.IH [OF r this] nb show ?thesis by simp
    next
      case c: False
      with Cons.prems(1) True nb have "first_moves h s ident w origin W ds (dist, Q) = Inr (dist', Q')"
        by (simp add: first_moves_Cons)
      from Cons.IH [OF this Cons.prems(2)] nb show ?thesis by simp
    qed
  qed
qed

lemma second_moves_seeds:
  "fold (second_move h s origin W) ds (dist, Q) = (dist', Q')
   \<Longrightarrow> \<forall>d \<in> set ds. pos_ok h (step origin d) \<longrightarrow> \<not> fst (no_brainer h s (step origin d) W w)
   \<Longrightarrow> \<forall>v \<in> set Q. seed_ok h s origin W w (v_dir v)
   \<Longrightarrow> \<forall>v \<in> set Q'. seed_ok h s origin W w (v_dir v)"
proof (induction ds arbitrary: dist Q)
  case Nil
  then show ?case by simp
next
  case (Cons e ds)
  obtain d1 Q1 where e: "second_move h s origin W e (dist, Q) = (d1, Q1)"
    by (cases "second_move h s origin W e (dist, Q)") auto
  have "Q1 = Q \<or> (Q1 = Q @ [\<lparr>v_dist = add_movement_penalties h s (step origin e) 1 W, v_pos = step origin e, v_dir = e\<rparr>]
        \<and> pos_ok h (step origin e) \<and> board s (step origin e) \<noteq> WALL
        \<and> \<not> is_danger h s (step origin e) W \<and> - board s (step origin e) < W)"
    using e by (auto simp: second_move_def Let_def split: if_splits)
  then have "\<forall>v \<in> set Q1. seed_ok h s origin W w (v_dir v)"
    using Cons.prems(2,3) by (auto simp: seed_ok_def)
  moreover have "fold (second_move h s origin W) ds (d1, Q1) = (dist', Q')"
    using Cons.prems(1) e by simp
  ultimately show ?case
    using Cons.IH Cons.prems(2) by simp
qed

lemma good_upd [simp]:
  "good D (st\<lparr>s_Q := q\<rparr>) = good D st"
  "good D (st\<lparr>s_visited := vs\<rparr>) = good D st"
  "good D (st\<lparr>s_dist := ds\<rparr>) = good D st"
  "good D (st\<lparr>world := t\<rparr>) = good D st"
  by (simp_all add: good_def)

lemma good_better [simp]: "good D st \<Longrightarrow> d \<in> D \<Longrightarrow> good D (better p d st)"
  by (simp add: good_def better_def)

lemma good_bd_get [simp]:
  "good D (snd (bd_get u st)) = good D st" "good D (snd (bd_prev_get u st)) = good D st"
  by (simp_all add: good_def)

lemma same_world_refl [simp]: "same_world s s"
  by (simp add: same_world_def)

lemma same_world_bd_get [simp]:
  "same_world s (world (snd (bd_get u st))) = same_world s (world st)"
  "same_world s (world (snd (bd_prev_get u st))) = same_world s (world st)"
  by (simp_all add: same_world_def bd_get_def bd_prev_get_def split: option.splits)

lemma money_cell_inv [simp]:
  "good D st \<Longrightarrow> d \<in> D \<Longrightarrow> good D (money_cell u d distance st)"
  "same_world s (world (money_cell u d distance st)) = same_world s (world st)"
  by (simp_all add: money_cell_def Let_def split_beta)

lemma weapon_cell_inv [simp]:
  "good D st \<Longrightarrow> d \<in> D \<Longrightarrow> good D (weapon_cell w W u d distance b st)"
  "world (weapon_cell w W u d distance b st) = world st"
  by (simp_all add: weapon_cell_def Let_def good_def better_def)

lemma evaluate_inv:
  "good D st \<Longrightarrow> d \<in> D \<Longrightarrow> good D (snd (evaluate h c w nh W u d st))"
  "same_world s (world (snd (evaluate h c w nh W u d st))) = same_world s (world st)"
  by (simp_all add: evaluate_def Let_def split_beta)

lemma search_edge_inv [simp]:
  "good D (search_edge h W u dir0 d st) = good D st"
  "world (search_edge h W u dir0 d st) = world st"
  by (simp_all add: search_edge_def Let_def good_def)

lemma search_edge_dirs:
  "set (s_Q (search_edge h W u dir0 d st)) \<subseteq> set (s_Q st) \<union> {v. v_dir v = dir0}"
  by (auto simp: search_edge_def Let_def)

lemma search_fold_dirs:
  "set (s_Q (fold (search_edge h W u dir0) ds st)) \<subseteq> set (s_Q st) \<union> {v. v_dir v = dir0}"
proof (induction ds arbitrary: st)
  case Nil
  then show ?case by simp
next
  case (Cons d ds)
  have "set (s_Q (fold (search_edge h W u dir0) ds (search_edge h W u dir0 d st)))
      \<subseteq> set (s_Q (search_edge h W u dir0 d st)) \<union> {v. v_dir v = dir0}"
    by (rule Cons.IH)
  also have "\<dots> \<subseteq> set (s_Q st) \<union> {v. v_dir v = dir0}"
    using search_edge_dirs [of h W u dir0 d st] by blast
  finally show ?case by simp
qed

lemma search_expand_inv:
  "good D (search_expand h W u dir0 st) = good D st"
  "world (search_expand h W u dir0 st) = world st"
  "set (s_Q (search_expand h W u dir0 st)) \<subseteq> set (s_Q st) \<union> {v. v_dir v = dir0}"
proof -
  have "good D (fold (search_edge h W u dir0) ds st) = good D st
      \<and> world (fold (search_edge h W u dir0) ds st) = world st" for ds
    by (induction ds arbitrary: st) simp_all
  then show "good D (search_expand h W u dir0 st) = good D st"
    "world (search_expand h W u dir0 st) = world st"
    by (simp_all add: search_expand_def)
  show "set (s_Q (search_expand h W u dir0 st)) \<subseteq> set (s_Q st) \<union> {v. v_dir v = dir0}"
    unfolding search_expand_def by (rule search_fold_dirs)
qed

lemma search_step_inv:
  assumes "s_Q st \<noteq> []" and "search_inv s D st"
  shows "search_inv s D (search_step pick h c w nh W st)"
proof -
  let ?t = "pq_top vertex_less pick (s_Q st)"
  let ?u = "v_pos ?t"
  let ?d = "v_dir ?t"
  let ?Q1 = "pq_pop vertex_less pick (s_Q st)"
  have q: "\<forall>v \<in> set (s_Q st). v_dir v \<in> D" and g: "good D st" and sw: "same_world s (world st)"
    using assms(2) by (simp_all add: search_inv_def good_def)
  have d: "?d \<in> D"
    using q pq_top_vertex_in [OF assms(1), of pick] by blast
  have q1: "\<forall>v \<in> set ?Q1. v_dir v \<in> D"
    using q pq_pop_subset [of vertex_less pick "s_Q st"] by blast
  show ?thesis
  proof (cases "?u \<in> s_visited st")
    case True
    then show ?thesis
      using q1 g sw by (simp add: search_step_def Let_def search_inv_def good_def)
  next
    case False
    let ?st2 = "st\<lparr>s_Q := ?Q1, s_visited := insert ?u (s_visited st)\<rparr>"
    let ?e = "evaluate h c w nh W ?u ?d ?st2"
    have step: "search_step pick h c w nh W st = (if fst ?e then snd ?e else search_expand h W ?u ?d (snd ?e))"
      using False by (simp add: search_step_def Let_def split_beta)
    have ge: "good D (snd ?e)"
      using g d by (simp add: evaluate_inv)
    have swe: "same_world s (world (snd ?e))"
      using sw by (simp add: evaluate_inv)
    have qe: "\<forall>v \<in> set (s_Q (snd ?e)). v_dir v \<in> D"
      using q1 by simp
    have qx: "\<forall>v \<in> set (s_Q (search_expand h W ?u ?d (snd ?e))). v_dir v \<in> D"
      using qe d search_expand_inv(3) [of h W ?u ?d "snd ?e"] by auto
    show ?thesis
      using ge swe qe qx
      by (auto simp: step search_inv_def search_expand_inv good_def [symmetric])
  qed
qed

lemma search_loop_inv:
  "search_inv s D st \<Longrightarrow> search_inv s D (search_loop pick h c w nh W st)"
proof (induction pick h c w nh W st rule: search_loop.induct)
  case (1 pick h c w nh W st)
  show ?case
  proof (cases "s_Q st = []")
    case True
    with "1.prems" show ?thesis by (simp add: search_loop.simps)
  next
    case False
    from search_step_inv [OF False "1.prems"] have "search_inv s D (search_step pick h c w nh W st)" .
    from "1.IH" [OF False this] False show ?thesis
      by (subst search_loop.simps) simp
  qed
qed

lemma first_moves_no_return:
  "first_no_brainer h s origin W w ds = None \<Longrightarrow> \<exists>r. first_moves h s ident w origin W ds (dist, Q) = Inr r"
proof (induction ds arbitrary: dist Q)
  case Nil
  then show ?case by (simp add: first_moves.simps)
next
  case (Cons e ds)
  from Cons.prems have a: "\<not> (pos_ok h (step origin e) \<and> fst (no_brainer h s (step origin e) W w))"
    and b: "first_no_brainer h s origin W w ds = None"
    by (auto simp: first_no_brainer_def split: if_splits)
  show ?case
    using a Cons.IH [OF b] by (auto simp: first_moves_Cons)
qed

lemma no_brainer_cases:
  assumes "fst (no_brainer h s p W w)" and "BUILDER \<le> W"
  shows "Board s p \<noteq> WALL \<and> - Board s p \<le> W
     \<and> (snd (no_brainer h s p W w) = W \<or> snd (no_brainer h s p W w) = Board s p)"
  using assms by (auto simp: no_brainer_def board_consts split: if_splits)

lemma no_brainer_not: "\<not> fst (no_brainer h s p W w) \<Longrightarrow> snd (no_brainer h s p W w) = W"
  by (auto simp: no_brainer_def split: if_splits)

lemma commit_move:
  assumes "commit h c ident w W st = (True, s')"
  shows "best_profit st \<noteq> INT_MIN
     \<and> (\<exists>prio. instruction_buffer s' = instruction_buffer (world st)
            @ [\<lparr>priority = prio, is_build = False, uid = ident, dir = best_dir st\<rparr>])"
proof -
  have p: "best_profit st \<noteq> INT_MIN"
    using assms by (auto simp: commit_def Let_def split: if_splits)
  obtain prio s1 where "s' = push_move prio ident (best_dir st) s1"
    and "instruction_buffer s1 = instruction_buffer (world st)"
    using assms by (auto simp: commit_def Let_def split: if_splits option.splits)
  then show ?thesis
    using p by (auto simp: push_move_def)
qed

text \<open>
  C1, as the code has it. A move that \<^verbatim>\<open>approach_target\<close> pushes goes to a cell of the board
  that is not a wall and does not hold an enemy of a tier above the weapon of the unit, and
  that is not dangerous for the weapon \<^verbatim>\<open>no_brainer\<close> leaves for that cell: the weapon lying
  on it when the move grabs a better weapon, the weapon of the unit otherwise. This holds
  for the move of the first loop and for the first step committed after the search.
\<close>

theorem planner_move_safe:
  assumes "host_ok h" and "pos_ok h (cit_pos (citizen h ident))"
    and "approach_target pick h s ident is_warrior = (True, s')"
  shows "\<exists>prio d. instruction_buffer s' = instruction_buffer s
            @ [\<lparr>priority = prio, is_build = False, uid = ident, dir = d\<rparr>]
     \<and> pos_ok h (step (cit_pos (citizen h ident)) d)
     \<and> board s (step (cit_pos (citizen h ident)) d) \<noteq> WALL
     \<and> - board s (step (cit_pos (citizen h ident)) d) \<le> my_weapon (citizen h ident)
     \<and> \<not> is_danger h s (step (cit_pos (citizen h ident)) d)
           (snd (no_brainer h s (step (cit_pos (citizen h ident)) d) (my_weapon (citizen h ident)) is_warrior))"
proof -
  let ?c = "citizen h ident"
  let ?o = "cit_pos ?c"
  let ?W = "my_weapon ?c"
  let ?nh = "if is_warrior then cit_life ?c < warrior_ini_life h else cit_life ?c < builder_ini_life h"
  let ?dinit = "(\<lambda>p. USHRT_MAX)(?o := 0)"
  show ?thesis
  proof (cases "first_no_brainer h s ?o ?W is_warrior Directions")
    case (Some d)
    then have d: "pos_ok h (step ?o d)" "fst (no_brainer h s (step ?o d) ?W is_warrior)"
      by (auto simp: first_no_brainer_def find_Some_iff)
    from approach_target_fast [OF Some, of pick] assms(3)
    have r: "\<not> snd (no_brainer h s (step ?o d) ?W is_warrior) < - board_enemy s (step ?o d)"
      and s': "s' = push_move VERY_HIGH_PRIORITY ident d s"
      by (auto split: if_splits)
    from r have "\<not> is_danger h s (step ?o d) (snd (no_brainer h s (step ?o d) ?W is_warrior))"
      by (simp add: is_danger_def)
    moreover have "board s (step ?o d) \<noteq> WALL \<and> - board s (step ?o d) \<le> ?W"
      using no_brainer_cases [OF d(2) my_weapon_ge] by (simp add: board_def)
    ultimately show ?thesis
      using d(1) s' by (auto simp: push_move_def)
  next
    case None
    from first_moves_no_return [OF None, of ident ?dinit "[]"] obtain dist1 Q1 where
      f: "first_moves h s ident is_warrior ?o ?W Directions (?dinit, []) = Inr (dist1, Q1)"
      by auto
    from first_moves_seeds [OF f] have q1: "\<forall>v \<in> set Q1. seed_ok h s ?o ?W is_warrior (v_dir v)"
      and nb: "\<forall>d \<in> set Directions. pos_ok h (step ?o d) \<longrightarrow> \<not> fst (no_brainer h s (step ?o d) ?W is_warrior)"
      by simp_all
    obtain dist2 Q2 where
      e: "(if Q1 = [] then second_moves h s ?o ?W (dist1, Q1) else (dist1, Q1)) = (dist2, Q2)"
      by (cases "if Q1 = [] then second_moves h s ?o ?W (dist1, Q1) else (dist1, Q1)") auto
    have q2: "\<forall>v \<in> set Q2. seed_ok h s ?o ?W is_warrior (v_dir v)"
    proof (cases "Q1 = []")
      case True
      with e have "fold (second_move h s ?o ?W) Directions (dist1, Q1) = (dist2, Q2)"
        by (simp add: second_moves_def)
      from second_moves_seeds [OF this nb q1] show ?thesis .
    next
      case False
      with e q1 show ?thesis by simp
    qed
    let ?init = "\<lparr>s_dist = dist2, s_visited = {?o}, s_Q = Q2, best_dir = Left,
        best_profit = INT_MIN, take_ownership = None, take_ownership_dist = 0, world = s\<rparr>"
    let ?st = "search_loop pick h ?c is_warrior ?nh ?W ?init"
    let ?D = "{d. seed_ok h s ?o ?W is_warrior d}"
    have "search_inv s ?D ?init"
      using q2 by (simp add: search_inv_def)
    then have inv: "search_inv s ?D ?st"
      by (rule search_loop_inv)
    have "approach_target pick h s ident is_warrior = commit h ?c ident is_warrior ?W ?st"
      unfolding approach_target_def Let_def by (simp add: f e)
    with assms(3) have "commit h ?c ident is_warrior ?W ?st = (True, s')" by simp
    from commit_move [OF this] obtain prio where
      bp: "best_profit ?st \<noteq> INT_MIN"
      and ib: "instruction_buffer s' = instruction_buffer (world ?st)
            @ [\<lparr>priority = prio, is_build = False, uid = ident, dir = best_dir ?st\<rparr>]"
      by blast
    from inv bp have so: "seed_ok h s ?o ?W is_warrior (best_dir ?st)"
      and sw: "same_world s (world ?st)"
      by (simp_all add: search_inv_def)
    from so have "snd (no_brainer h s (step ?o (best_dir ?st)) ?W is_warrior) = ?W"
      by (simp add: seed_ok_def no_brainer_not)
    with so sw ib show ?thesis
      by (intro exI [of _ prio] exI [of _ "best_dir ?st"]) (simp add: seed_ok_def same_world_def)
  qed
qed

theorem planner_move_safe_witness:
  "host_ok money_host \<and> pos_ok money_host (cit_pos (citizen money_host 1))
   \<and> approach_target first_top money_host (build_board first_top money_host (base_ai 1 3)) 1 True
       = (True, snd (approach_target first_top money_host (build_board first_top money_host (base_ai 1 3)) 1 True))
   \<and> instruction_buffer (snd (approach_target first_top money_host
         (build_board first_top money_host (base_ai 1 3)) 1 True))
      = [\<lparr>priority = - 1, is_build = False, uid = 1, dir = Right\<rparr>]"
proof -
  let ?s = "build_board first_top money_host (base_ai 1 3)"
  have 1: "host_ok money_host"
    by (simp add: host_ok_def money_host_def example_defs)
  have 2: "pos_ok money_host (cit_pos (citizen money_host 1))"
    by (simp add: pos_ok_def money_host_def example_defs)
  have 4: "fst (approach_target first_top money_host ?s 1 True)"
    and 5: "instruction_buffer (snd (approach_target first_top money_host ?s 1 True))
      = [\<lparr>priority = - 1, is_build = False, uid = 1, dir = Right\<rparr>]"
    by (simp_all add: money_host_def example_defs build_eval closest_eval approach_eval my_weapon_def)
  have 3: "approach_target first_top money_host ?s 1 True
       = (True, snd (approach_target first_top money_host ?s 1 True))"
    using 4 by (simp add: prod_eq_iff)
  show ?thesis
    using planner_move_safe [OF 1 2 3] 1 2 3 5 by simp
qed

text \<open>
  C1 as the specification states it measures the danger against the current weapon of the
  unit. At night the hammer warrior of \<open>grab_host\<close>, not in danger where it stands, is sent
  onto the gun at \<open>(0, 1)\<close>, a cell next to an enemy gun and so dangerous for a hammer.
\<close>

theorem planner_move_safe_counterexample:
  "instruction_buffer (snd (approach_target first_top grab_host
         (build_board first_top grab_host (base_ai 1 3)) 1 True))
      = [\<lparr>priority = 500, is_build = False, uid = 1, dir = Right\<rparr>]
   \<and> is_danger grab_host (build_board first_top grab_host (base_ai 1 3)) (0, 1)
        (my_weapon (citizen grab_host 1))
   \<and> \<not> is_danger grab_host (build_board first_top grab_host (base_ai 1 3)) (0, 0)
        (my_weapon (citizen grab_host 1))"
  by (simp add: grab_host_def example_defs build_eval closest_eval approach_eval my_weapon_def)

subsection \<open>The profit of money\<close>

lemma bd_get_fst:
  "fst (bd_get u st) = bonus_lookup (bonus_distances (world st)) u"
  "fst (bd_prev_get u st) = bonus_lookup (bonus_distances_prev (world st)) u"
  "bonus_lookup (bonus_distances_prev (world (snd (bd_get u st)))) u
     = bonus_lookup (bonus_distances_prev (world st)) u"
  by (simp_all add: bd_get_def bd_prev_get_def bonus_lookup_def split: option.splits)

lemma better_best:
  "best_profit (better p d st) = max (best_profit st) p"
  "best_profit st < p \<Longrightarrow> best_dir (better p d st) = d"
  by (simp_all add: better_def)

text \<open>
  C4, as the code has it. When the search dequeues a cell with money, the profit compared
  with the best one so far is the value of money minus the distance of the unit; it is
  replaced by zero exactly when it is positive and the recorded distance of the closest
  citizen is smaller than both the distance of the unit and the distance recorded in the
  last round. In particular it stands when the closest citizen is as far as the unit.
\<close>

theorem money_profit_rule:
  assumes "board (world st) u = MONEY"
  shows "let distance = s_dist st u;
             closest = closest_dist (bonus_lookup (bonus_distances (world st)) u);
             prev = closest_dist (bonus_lookup (bonus_distances_prev (world st)) u);
             profit = (if 0 < MONEY_PROFIT - distance \<and> closest < distance \<and> closest < prev
                       then 0 else MONEY_PROFIT - distance);
             st' = snd (evaluate h c is_warrior NEED_HEAL WEAPON u d st)
         in \<not> fst (evaluate h c is_warrior NEED_HEAL WEAPON u d st)
            \<and> best_profit st' = max (best_profit st) profit
            \<and> (best_profit st < profit \<longrightarrow> best_dir st' = d)"
proof -
  have e: "evaluate h c is_warrior NEED_HEAL WEAPON u d st = (False, money_cell u d (s_dist st u) st)"
    using assms by (simp add: evaluate_def Let_def board_consts)
  show ?thesis
    unfolding e Let_def
    by (simp add: money_cell_def Let_def split_beta bd_get_fst better_best)
qed

theorem money_profit_rule_witness:
  "board (world (c4_search 5 2 4)) (0, 2) = MONEY
   \<and> best_profit (snd (evaluate base_host my_hammer True False HAMMER (0, 2) Right (c4_search 5 2 4))) = 0
   \<and> best_profit (snd (evaluate base_host my_hammer True False HAMMER (0, 2) Right (c4_search 5 5 9))) = 7"
proof -
  have 1: "board (world (c4_search 5 2 4)) (0, 2) = MONEY" "board (world (c4_search 5 5 9)) (0, 2) = MONEY"
    by (simp_all add: c4_search_def c4_world_def board_def)
  show ?thesis
    using money_profit_rule [OF 1(1), of base_host my_hammer True False HAMMER Right]
      money_profit_rule [OF 1(2), of base_host my_hammer True False HAMMER Right] 1
    by (simp add: Let_def c4_search_def c4_world_def bonus_lookup_def MONEY_PROFIT_def INT_MIN_def)
qed

text \<open>
  C4 as the specification states it makes the profit zero whenever another citizen is
  closer now and was already closer in the last round. At distance 20 with a citizen
  recorded at 3, after 5 in the last round, the profit stays at \<open>12 - 20\<close>; at distance 5
  with a citizen recorded at 2 in both rounds it stays at \<open>12 - 5\<close>.
\<close>

theorem money_profit_rule_counterexample:
  "best_profit (snd (evaluate base_host my_hammer True False HAMMER (0, 2) Right (c4_search 20 3 5))) = - 8
   \<and> best_profit (snd (evaluate base_host my_hammer True False HAMMER (0, 2) Right (c4_search 5 2 2))) = 7"
  by (simp add: evaluate_def money_cell_def better_def bd_get_def bd_prev_get_def Let_def split_beta
      c4_search_def c4_world_def board_def board_consts MONEY_PROFIT_def INT_MIN_def base_ai_def)

subsection \<open>The day task of a builder\<close>

lemma commit_False:
  "commit h c ident w W st = (False, s1) \<Longrightarrow> s1 = world st"
  by (auto simp: commit_def Let_def split: if_splits)

lemma approach_target_False:
  assumes "approach_target pick h s ident w = (False, s1)"
  shows "same_world s s1"
proof -
  let ?c = "citizen h ident"
  let ?o = "cit_pos ?c"
  let ?W = "my_weapon ?c"
  let ?nh = "if w then cit_life ?c < warrior_ini_life h else cit_life ?c < builder_ini_life h"
  let ?dinit = "(\<lambda>p. USHRT_MAX)(?o := 0)"
  show ?thesis
  proof (cases "first_no_brainer h s ?o ?W w Directions")
    case (Some d)
    from approach_target_fast [OF Some, of pick] assms have "s1 = s"
      by (auto split: if_splits)
    then show ?thesis by simp
  next
    case None
    from first_moves_no_return [OF None, of ident ?dinit "[]"] obtain dist1 Q1 where
      f: "first_moves h s ident w ?o ?W Directions (?dinit, []) = Inr (dist1, Q1)"
      by auto
    obtain dist2 Q2 where
      e: "(if Q1 = [] then second_moves h s ?o ?W (dist1, Q1) else (dist1, Q1)) = (dist2, Q2)"
      by (cases "if Q1 = [] then second_moves h s ?o ?W (dist1, Q1) else (dist1, Q1)") auto
    let ?init = "\<lparr>s_dist = dist2, s_visited = {?o}, s_Q = Q2, best_dir = Left,
        best_profit = INT_MIN, take_ownership = None, take_ownership_dist = 0, world = s\<rparr>"
    let ?st = "search_loop pick h ?c w ?nh ?W ?init"
    have "search_inv s UNIV ?init"
      by (simp add: search_inv_def)
    then have inv: "search_inv s UNIV ?st"
      by (rule search_loop_inv)
    have "approach_target pick h s ident w = commit h ?c ident w ?W ?st"
      unfolding approach_target_def Let_def by (simp add: f e)
    with assms have "commit h ?c ident w ?W ?st = (False, s1)" by simp
    then have "s1 = world ?st" by (rule commit_False)
    with inv show ?thesis by (simp add: search_inv_def)
  qed
qed

text \<open>
  The limit up to which a barricade is improved follows the 32-bit product: with a maximal
  resistance of 40000000 the product wraps to a negative number, and no barricade is
  improvable; with the maximal resistance 80 the limit is 56.
\<close>

lemma has_buildable_barricade_wraps:
  "barricade_max_resistance h = 40000000 \<Longrightarrow> \<not> has_buildable_barricade h s p"
  by (simp add: has_buildable_barricade_def to_int32_def PERCENT_BUILD_def cdiv_def)

lemma has_buildable_barricade_80:
  "barricade_max_resistance h = 80 \<Longrightarrow>
   has_buildable_barricade h s p
     = (pos_ok h p \<and> 0 < board_barricades s p \<and> board s p \<noteq> FRIENDLY_CITIZEN
        \<and> board_barricades s p < 56)"
  by (simp add: has_buildable_barricade_def to_int32_def PERCENT_BUILD_def cdiv_def)

text \<open>
  C7. When the planner reports no action for a builder, it has left the matrices, the
  counter and the buffer as they were, and \<^verbatim>\<open>builder_day_task\<close> goes on: with an improvable
  barricade of the player next to the builder it pushes a build towards one, with the build
  priority; otherwise, when the quota is met, nothing; otherwise a build towards an empty
  cell without barricade and without enemy or threat, or failing that towards any empty
  cell without barricade, with the counter incremented; otherwise nothing.
\<close>

theorem builder_day_fallback:
  assumes "host_ok h" and "pos_ok h (cit_pos (citizen h ident))"
    and "approach_target pick h s ident False = (False, s1)"
  shows "same_world s s1
     \<and> ((\<exists>d \<in> set Directions. has_buildable_barricade h s1 (step (cit_pos (citizen h ident)) d)) \<longrightarrow>
          (\<exists>d \<in> set Directions. has_buildable_barricade h s1 (step (cit_pos (citizen h ident)) d)
             \<and> builder_day_task pick h s ident = push_build BUILD_PRIORITY ident d s1))
     \<and> (\<not> (\<exists>d \<in> set Directions. has_buildable_barricade h s1 (step (cit_pos (citizen h ident)) d)) \<longrightarrow>
          (if num_barricades s1 \<ge> max_num_barricades h then builder_day_task pick h s ident = s1
           else if \<exists>d \<in> set Directions. can_build_safe h s1 (step (cit_pos (citizen h ident)) d)
           then \<exists>d \<in> set Directions. can_build_safe h s1 (step (cit_pos (citizen h ident)) d)
                  \<and> builder_day_task pick h s ident
                      = push_build BUILD_PRIORITY ident d (s1\<lparr>num_barricades := num_barricades s1 + 1\<rparr>)
           else if \<exists>d \<in> set Directions. can_build h s1 (step (cit_pos (citizen h ident)) d)
           then \<exists>d \<in> set Directions. can_build h s1 (step (cit_pos (citizen h ident)) d)
                  \<and> builder_day_task pick h s ident
                      = push_build BUILD_PRIORITY ident d (s1\<lparr>num_barricades := num_barricades s1 + 1\<rparr>)
           else builder_day_task pick h s ident = s1))"
proof -
  let ?p = "cit_pos (citizen h ident)"
  let ?B = "\<lambda>d. has_buildable_barricade h s1 (step ?p d)"
  let ?S = "\<lambda>d. can_build_safe h s1 (step ?p d)"
  let ?C = "\<lambda>d. can_build h s1 (step ?p d)"
  have sw: "same_world s s1"
    using assms(3) by (rule approach_target_False)
  have task: "builder_day_task pick h s ident =
     (case find ?B Directions of
        Some d \<Rightarrow> push_build BUILD_PRIORITY ident d s1
      | None \<Rightarrow>
          if num_barricades s1 \<ge> max_num_barricades h then s1
          else
            case find ?S Directions of
              Some d \<Rightarrow> push_build BUILD_PRIORITY ident d (s1\<lparr>num_barricades := num_barricades s1 + 1\<rparr>)
            | None \<Rightarrow>
                case find ?C Directions of
                  Some d \<Rightarrow> push_build BUILD_PRIORITY ident d (s1\<lparr>num_barricades := num_barricades s1 + 1\<rparr>)
                | None \<Rightarrow> s1)"
    by (simp add: builder_day_task_def assms(3) Let_def)
  have f: "(\<exists>d \<in> set Directions. P d) \<Longrightarrow> \<exists>d \<in> set Directions. P d \<and> find P Directions = Some d"
    for P :: "Dir \<Rightarrow> bool"
    by (cases "find P Directions") (auto simp: find_None_iff find_Some_iff)
  have n: "\<not> (\<exists>d \<in> set Directions. P d) \<Longrightarrow> find P Directions = None" for P :: "Dir \<Rightarrow> bool"
    by (simp add: find_None_iff)
  have 1: "(\<exists>d \<in> set Directions. ?B d) \<longrightarrow>
      (\<exists>d \<in> set Directions. ?B d \<and> builder_day_task pick h s ident = push_build BUILD_PRIORITY ident d s1)"
  proof
    assume "\<exists>d \<in> set Directions. ?B d"
    from f [of ?B, OF this] obtain d where "d \<in> set Directions" "?B d" "find ?B Directions = Some d"
      by blast
    then show "\<exists>d \<in> set Directions. ?B d \<and> builder_day_task pick h s ident = push_build BUILD_PRIORITY ident d s1"
      by (auto simp: task)
  qed
  have 2: "if num_barricades s1 \<ge> max_num_barricades h then builder_day_task pick h s ident = s1
           else if \<exists>d \<in> set Directions. ?S d
           then \<exists>d \<in> set Directions. ?S d \<and> builder_day_task pick h s ident
                      = push_build BUILD_PRIORITY ident d (s1\<lparr>num_barricades := num_barricades s1 + 1\<rparr>)
           else if \<exists>d \<in> set Directions. ?C d
           then \<exists>d \<in> set Directions. ?C d \<and> builder_day_task pick h s ident
                      = push_build BUILD_PRIORITY ident d (s1\<lparr>num_barricades := num_barricades s1 + 1\<rparr>)
           else builder_day_task pick h s ident = s1"
    if nb: "\<not> (\<exists>d \<in> set Directions. ?B d)"
  proof -
    note t = task [unfolded n [of ?B, OF nb], simplified]
    show ?thesis
    proof (cases "num_barricades s1 \<ge> max_num_barricades h")
      case True
      then show ?thesis by (simp add: t)
    next
      case q: False
      show ?thesis
      proof (cases "\<exists>d \<in> set Directions. ?S d")
        case True
        from f [of ?S, OF this] obtain d where "d \<in> set Directions" "?S d" "find ?S Directions = Some d"
          by blast
        then have "\<exists>d \<in> set Directions. ?S d \<and> builder_day_task pick h s ident
                      = push_build BUILD_PRIORITY ident d (s1\<lparr>num_barricades := num_barricades s1 + 1\<rparr>)"
          using q by (auto simp: t)
        with q True show ?thesis by simp
      next
        case ns: False
        note t2 = t [unfolded n [of ?S, OF ns]]
        show ?thesis
        proof (cases "\<exists>d \<in> set Directions. ?C d")
          case True
          from f [of ?C, OF this] obtain d where "d \<in> set Directions" "?C d" "find ?C Directions = Some d"
            by blast
          then have "\<exists>d \<in> set Directions. ?C d \<and> builder_day_task pick h s ident
                      = push_build BUILD_PRIORITY ident d (s1\<lparr>num_barricades := num_barricades s1 + 1\<rparr>)"
            using q by (auto simp: t2)
          with q ns True show ?thesis by simp
        next
          case False
          with q ns show ?thesis by (simp add: t2 n [of ?C, OF False])
        qed
      qed
    qed
  qed
  show ?thesis
    using sw 1 2 by blast
qed

theorem builder_day_fallback_witness:
  "host_ok build_host \<and> pos_ok build_host (cit_pos (citizen build_host 1)) \<and> is_day build_host
   \<and> approach_target first_top build_host (build_board first_top build_host (base_ai 1 2)) 1 False
       = (False, snd (approach_target first_top build_host (build_board first_top build_host (base_ai 1 2)) 1 False))
   \<and> instruction_buffer (builder_day_task first_top build_host
         (build_board first_top build_host (base_ai 1 2)) 1)
      = [\<lparr>priority = 0, is_build = True, uid = 1, dir = Right\<rparr>]
   \<and> num_barricades (builder_day_task first_top build_host
         (build_board first_top build_host (base_ai 1 2)) 1) = 1
   \<and> has_buildable_barricade improve_host (build_board first_top improve_host (base_ai 1 2)) (0, 1)
   \<and> \<not> fst (approach_target first_top improve_host (build_board first_top improve_host (base_ai 1 2)) 1 False)
   \<and> instruction_buffer (builder_day_task first_top improve_host
         (build_board first_top improve_host (base_ai 1 2)) 1)
      = [\<lparr>priority = 0, is_build = True, uid = 1, dir = Right\<rparr>]
   \<and> num_barricades (builder_day_task first_top improve_host
         (build_board first_top improve_host (base_ai 1 2)) 1) = 0
   \<and> \<not> fst (approach_target first_top quota_host (build_board first_top quota_host (base_ai 1 2)) 1 False)
   \<and> max_num_barricades quota_host \<le> num_barricades (build_board first_top quota_host (base_ai 1 2))
   \<and> instruction_buffer (builder_day_task first_top quota_host
         (build_board first_top quota_host (base_ai 1 2)) 1) = []"
proof -
  let ?s = "build_board first_top build_host (base_ai 1 2)"
  let ?si = "build_board first_top improve_host (base_ai 1 2)"
  let ?sq = "build_board first_top quota_host (base_ai 1 2)"
  note ev = build_host_def improve_host_def quota_host_def example_defs build_eval closest_eval
    approach_eval my_weapon_def
  have 1: "host_ok build_host" "host_ok improve_host" "host_ok quota_host"
    by (simp_all add: host_ok_def build_host_def improve_host_def quota_host_def example_defs)
  have 2: "pos_ok build_host (cit_pos (citizen build_host 1))"
    "pos_ok improve_host (cit_pos (citizen improve_host 1))"
    "pos_ok quota_host (cit_pos (citizen quota_host 1))"
    by (simp_all add: pos_ok_def build_host_def improve_host_def quota_host_def example_defs)
  have 4: "\<not> fst (approach_target first_top build_host ?s 1 False)"
    "\<not> fst (approach_target first_top improve_host ?si 1 False)"
    "\<not> fst (approach_target first_top quota_host ?sq 1 False)"
    by (simp_all add: ev)
  have 3: "approach_target first_top build_host ?s 1 False
       = (False, snd (approach_target first_top build_host ?s 1 False))"
    "approach_target first_top improve_host ?si 1 False
       = (False, snd (approach_target first_top improve_host ?si 1 False))"
    "approach_target first_top quota_host ?sq 1 False
       = (False, snd (approach_target first_top quota_host ?sq 1 False))"
    using 4 by (simp_all add: prod_eq_iff)
  have 5: "instruction_buffer (builder_day_task first_top build_host ?s 1)
      = [\<lparr>priority = 0, is_build = True, uid = 1, dir = Right\<rparr>]"
    "num_barricades (builder_day_task first_top build_host ?s 1) = 1"
    by (simp_all add: ev)
  have 6: "is_day build_host"
    by (simp add: is_day_def build_host_def example_defs)
  have 7: "has_buildable_barricade improve_host ?si (0, 1)"
    "instruction_buffer (builder_day_task first_top improve_host ?si 1)
      = [\<lparr>priority = 0, is_build = True, uid = 1, dir = Right\<rparr>]"
    "num_barricades (builder_day_task first_top improve_host ?si 1) = 0"
    by (simp_all add: ev board_barricades_def cdiv_def)
  have 8: "max_num_barricades quota_host \<le> num_barricades ?sq"
    "instruction_buffer (builder_day_task first_top quota_host ?sq 1) = []"
    by (simp_all add: ev)
  show ?thesis
    using builder_day_fallback [OF 1(1) 2(1) 3(1)] builder_day_fallback [OF 1(2) 2(2) 3(2)]
      builder_day_fallback [OF 1(3) 2(3) 3(3)] 1 2 3 4 5 6 7 8
    by simp
qed

subsection \<open>A weapon without a recorded contender\<close>

lemma approach_target_search:
  "search_init h s ident w = Some init \<Longrightarrow>
   approach_target pick h s ident w =
     commit h (citizen h ident) ident w (my_weapon (citizen h ident))
       (search_loop pick h (citizen h ident) w
          (if w then cit_life (citizen h ident) < warrior_ini_life h
           else cit_life (citizen h ident) < builder_ini_life h)
          (my_weapon (citizen h ident)) init)"
  by (auto simp: search_init_def approach_target_def Let_def split: sum.splits prod.splits)

lemma search_loop_reaches:
  "search_reaches pick h c w nh W init st \<Longrightarrow>
   search_reaches pick h c w nh W init (search_loop pick h c w nh W st)"
proof (induction pick h c w nh W st rule: search_loop.induct)
  case (1 pick h c w nh W st)
  show ?case
  proof (cases "s_Q st = []")
    case True
    with "1.prems" show ?thesis by (simp add: search_loop.simps)
  next
    case False
    from "1.prems" False have "search_reaches pick h c w nh W init (search_step pick h c w nh W st)"
      by (rule search_reaches.turn)
    from "1.IH" [OF False this] False show ?thesis
      by (subst search_loop.simps) simp
  qed
qed

lemma cdiv_nonneg: "0 \<le> a \<Longrightarrow> 0 < b \<Longrightarrow> 0 \<le> cdiv a b"
  by (simp add: cdiv_def sgn_if pos_imp_zdiv_nonneg_iff)

lemma strength_demolish_pos: "host_ok h \<Longrightarrow> 0 < strength_demolish h W"
  by (simp add: host_ok_def strength_demolish_def)

lemma to_ushort_id: "0 \<le> x \<Longrightarrow> x < 65536 \<Longrightarrow> to_ushort x = x"
  by (simp add: to_ushort_def)

lemma move_cost_pos:
  assumes "host_ok h" and "board s p \<le> ENEMY_BUILDER \<longrightarrow> 0 \<le> board_enemy s p"
  shows "1 \<le> move_cost h s W p"
proof -
  have "0 \<le> (if board_barricades s p < 0
          then cdiv (- board_barricades s p) (strength_demolish h W) else 0)"
    using strength_demolish_pos [OF assms(1), of W] by (simp add: cdiv_nonneg)
  moreover have "0 \<le> (if board s p \<le> ENEMY_BUILDER then cdiv (board_enemy s p) (life_lost_in_attack h) else 0)"
    using assms by (simp add: cdiv_nonneg host_ok_def)
  moreover have "0 \<le> (if board s p = FRIENDLY_CITIZEN then COST_WALK_INTO_FRIENDLY else 0)"
    by (simp add: COST_WALK_INTO_FRIENDLY_def)
  ultimately show ?thesis
    unfolding move_cost_def by linarith
qed

lemma add_movement_penalties_bounds:
  assumes hok: "host_ok h" and en: "board s p \<le> ENEMY_BUILDER \<longrightarrow> 0 \<le> board_enemy s p"
    and d: "1 \<le> d" and fit: "d + move_cost h s W p - 1 < 65536"
  shows "0 \<le> add_movement_penalties h s p d W"
    and "add_movement_penalties h s p d W \<le> d + move_cost h s W p - 1"
    and "\<not> board s p \<le> ENEMY_BUILDER \<Longrightarrow> d \<le> add_movement_penalties h s p d W"
proof -
  define b where "b = (if board_barricades s p < 0
          then cdiv (- board_barricades s p) (strength_demolish h W) else 0)"
  define e where "e = (if board s p \<le> ENEMY_BUILDER then cdiv (board_enemy s p) (life_lost_in_attack h) else 0)"
  define f where "f = (if board s p = FRIENDLY_CITIZEN then COST_WALK_INTO_FRIENDLY else 0)"
  have b0: "0 \<le> b"
    using strength_demolish_pos [OF hok, of W] by (simp add: b_def cdiv_nonneg)
  have e0: "0 \<le> e"
    using en hok by (simp add: e_def cdiv_nonneg host_ok_def)
  have f0: "0 \<le> f"
    by (simp add: f_def COST_WALK_INTO_FRIENDLY_def)
  have mc: "move_cost h s W p = 1 + b + e + f"
    by (simp add: move_cost_def b_def e_def f_def)
  define d1 where "d1 = (if board_barricades s p < 0 then to_ushort (d + b) else d)"
  define d2 where "d2 = (if board s p \<le> ENEMY_BUILDER then to_ushort (d1 + (e - 1)) else d1)"
  define d3 where "d3 = (if board s p = FRIENDLY_CITIZEN then to_ushort (d2 + f) else d2)"
  have amp: "add_movement_penalties h s p d W = d3"
    by (simp add: add_movement_penalties_def Let_def d3_def d2_def d1_def b_def e_def f_def)
  have bz: "\<not> board_barricades s p < 0 \<Longrightarrow> b = 0"
    and ez: "\<not> board s p \<le> ENEMY_BUILDER \<Longrightarrow> e = 0"
    and fz: "board s p \<noteq> FRIENDLY_CITIZEN \<Longrightarrow> f = 0"
    and ef: "board s p = FRIENDLY_CITIZEN \<Longrightarrow> e = 0"
    by (simp_all add: b_def e_def f_def board_consts)
  have fit': "d + b + e + f < 65536"
    using fit mc by simp
  have 1: "d1 = d + b"
  proof (cases "board_barricades s p < 0")
    case True
    have "to_ushort (d + b) = d + b"
      using b0 d fit' e0 f0 by (intro to_ushort_id) linarith+
    with True show ?thesis by (simp add: d1_def)
  next
    case False
    then show ?thesis by (simp add: d1_def bz)
  qed
  have 2: "d2 = (if board s p \<le> ENEMY_BUILDER then d1 + e - 1 else d1)"
  proof (cases "board s p \<le> ENEMY_BUILDER")
    case True
    have "to_ushort (d1 + (e - 1)) = d1 + (e - 1)"
      using 1 b0 d fit' e0 f0 by (intro to_ushort_id) linarith+
    with True show ?thesis by (simp add: d2_def)
  next
    case False
    then show ?thesis by (simp add: d2_def)
  qed
  have 3: "d3 = (if board s p = FRIENDLY_CITIZEN then d2 + f else d2)"
  proof (cases "board s p = FRIENDLY_CITIZEN")
    case True
    then have "\<not> board s p \<le> ENEMY_BUILDER" by (simp add: board_consts)
    then have "d2 = d + b" using 1 2 by simp
    then have "to_ushort (d2 + f) = d2 + f"
      using b0 d fit' e0 f0 by (intro to_ushort_id) linarith+
    with True show ?thesis by (simp add: d3_def)
  next
    case False
    then show ?thesis by (simp add: d3_def)
  qed
  have lo: "0 \<le> d3" and hi: "d3 \<le> d + b + e + f" and ne: "\<not> board s p \<le> ENEMY_BUILDER \<Longrightarrow> d \<le> d3"
    using 1 2 3 b0 e0 f0 d ez fz ef by (auto split: if_splits)
  show "0 \<le> add_movement_penalties h s p d W"
    using lo by (simp add: amp)
  show "add_movement_penalties h s p d W \<le> d + move_cost h s W p - 1"
    using hi by (simp add: amp mc)
  show "d \<le> add_movement_penalties h s p d W" if "\<not> board s p \<le> ENEMY_BUILDER"
    using ne that by (simp add: amp)
qed

lemma cw_pos:
  assumes "well_costed h s W" and "pos_ok h p"
  shows "5 \<le> cw h s W p"
proof -
  have "host_ok h" and "board s p \<le> ENEMY_BUILDER \<longrightarrow> 0 \<le> board_enemy s p"
    using assms unfolding well_costed_def by blast+
  from move_cost_pos [OF this, of W] show ?thesis by (simp add: cw_def)
qed

lemma cost_sum_mono:
  assumes "well_costed h s W" and "V \<subseteq> {p. pos_ok h p}"
  shows "0 \<le> cost_sum h s W V" and "cost_sum h s W V \<le> cost_sum h s W {p. pos_ok h p}"
proof -
  have nn: "0 \<le> cw h s W p" if "pos_ok h p" for p
    using cw_pos [OF assms(1) that] by simp
  show "0 \<le> cost_sum h s W V"
    unfolding cost_sum_def using assms(2) by (intro sum_nonneg nn) auto
  show "cost_sum h s W V \<le> cost_sum h s W {p. pos_ok h p}"
    unfolding cost_sum_def using assms(2) by (intro sum_mono2 finite_board nn) auto
qed

lemma cost_sum_insert:
  assumes "V \<subseteq> {p. pos_ok h p}" and "u \<notin> V"
  shows "cost_sum h s W (insert u V) = cost_sum h s W V + move_cost h s W u + 4"
proof -
  have "finite V" using assms(1) finite_board by (rule finite_subset)
  then show ?thesis using assms(2) by (simp add: cost_sum_def cw_def)
qed

lemma cost_le_sum:
  assumes "well_costed h s W" and "pos_ok h p"
  shows "move_cost h s W p + 4 \<le> cost_sum h s W {p. pos_ok h p}"
proof -
  have "cw h s W p \<le> sum (cw h s W) {p. pos_ok h p}"
    using assms cw_pos [OF assms(1)] by (intro member_le_sum finite_board) (auto intro: order_trans [of 0 5])
  then show ?thesis by (simp add: cost_sum_def cw_def)
qed

lemma weapon_cell_dist:
  "s_dist (weapon_cell w W u d distance b st) = s_dist st
   \<or> s_dist (weapon_cell w W u d distance b st) = (s_dist st)(u := to_ushort (s_dist st u + 4))"
  by (simp add: weapon_cell_def Let_def better_def)

lemma evaluate_dist:
  "s_dist (snd (evaluate h c w nh W u d st)) = s_dist st
   \<or> s_dist (snd (evaluate h c w nh W u d st)) = (s_dist st)(u := to_ushort (s_dist st u + 4))"
proof -
  have "s_dist (weapon_cell w W u d (s_dist st u) (fst (bd_get u st)) (snd (bd_get u st))) = s_dist st
   \<or> s_dist (weapon_cell w W u d (s_dist st u) (fst (bd_get u st)) (snd (bd_get u st)))
      = (s_dist st)(u := to_ushort (s_dist st u + 4))"
    using weapon_cell_dist [of w W u d "s_dist st u" "fst (bd_get u st)" "snd (bd_get u st)"] by simp
  then show ?thesis
    by (auto simp: evaluate_def Let_def split_beta)
qed

lemma bd_get_lookup [simp]:
  "bonus_lookup (bonus_distances (world (snd (bd_get u st)))) p = bonus_lookup (bonus_distances (world st)) p"
  "bonus_lookup (bonus_distances (world (snd (bd_prev_get u st)))) p = bonus_lookup (bonus_distances (world st)) p"
  by (simp_all add: bd_get_def bd_prev_get_def bonus_lookup_def split: option.splits)

lemma evaluate_lookup:
  "bonus_lookup (bonus_distances (world (snd (evaluate h c w nh W u d st)))) p
     = bonus_lookup (bonus_distances (world st)) p"
  by (simp add: evaluate_def Let_def split_beta money_cell_def)

lemma step_neq: "step u d \<noteq> u"
  by (cases u; cases d) simp_all

lemma same_world_penalties:
  "same_world s t \<Longrightarrow> add_movement_penalties h t p d W = add_movement_penalties h s p d W"
  by (simp add: same_world_def add_movement_penalties_def board_def board_enemy_def board_barricades_def)

lemma same_world_board: "same_world s t \<Longrightarrow> board t p = board s p"
  by (simp add: same_world_def board_def)

lemma well_costed_bound:
  assumes "well_costed h s W" and "V \<subseteq> {p. pos_ok h p}" and "pos_ok h p"
  shows "cost_sum h s W V + move_cost h s W p < 65535"
proof -
  have "cost_sum h s W V \<le> cost_sum h s W {p. pos_ok h p}"
    using assms(1,2) by (rule cost_sum_mono)
  moreover have "move_cost h s W p + 4 \<le> cost_sum h s W {p. pos_ok h p}"
    using assms(1,3) by (rule cost_le_sum)
  moreover have "2 * cost_sum h s W {p. pos_ok h p} < 65535"
    using assms(1) by (simp add: well_costed_def USHRT_MAX_def)
  ultimately show ?thesis by linarith
qed

lemma search_edge_mid:
  assumes wc: "well_costed h s W" and m: "mid_inv h s W u st"
  shows "mid_inv h s W u (search_edge h W u dir0 d st)"
proof -
  let ?p = "step u d"
  let ?V = "s_visited st"
  let ?nd = "add_movement_penalties h (world st) ?p (to_ushort (s_dist st u + 1)) W"
  have wi: "weapon_inv h s W st" and uV: "u \<in> ?V" and u0: "0 \<le> s_dist st u"
    and u1: "s_dist st u \<le> cost_sum h s W ?V"
    using m by (simp_all add: mid_inv_def)
  have V: "?V \<subseteq> {p. pos_ok h p}" and sw: "same_world s (world st)"
    using wi by (simp_all add: weapon_inv_def)
  show ?thesis
  proof (cases "pos_ok h ?p \<and> board (world st) ?p \<noteq> WALL \<and> ?nd < s_dist st ?p")
    case False
    then have "search_edge h W u dir0 d st = st"
      by (auto simp: search_edge_def Let_def)
    with m show ?thesis by simp
  next
    case True
    then have pk: "pos_ok h ?p" by simp
    let ?v = "\<lparr>v_dist = ?nd, v_pos = ?p, v_dir = dir0\<rparr>"
    have se: "search_edge h W u dir0 d st = st\<lparr>s_dist := (s_dist st)(?p := ?nd), s_Q := s_Q st @ [?v]\<rparr>"
      using True by (simp add: search_edge_def Let_def)
    have hok: "host_ok h" and en: "board s ?p \<le> ENEMY_BUILDER \<longrightarrow> 0 \<le> board_enemy s ?p"
      using wc pk unfolding well_costed_def by blast+
    have b: "cost_sum h s W ?V + move_cost h s W ?p < 65535"
      using wc V pk by (rule well_costed_bound)
    have mp: "1 \<le> move_cost h s W ?p"
      using hok en by (rule move_cost_pos)
    have d0: "to_ushort (s_dist st u + 1) = s_dist st u + 1"
      using u0 u1 b mp by (intro to_ushort_id) linarith+
    have nd: "?nd = add_movement_penalties h s ?p (s_dist st u + 1) W"
      using sw by (simp add: d0 same_world_penalties)
    have fit: "(s_dist st u + 1) + move_cost h s W ?p - 1 < 65536"
      using u1 b by linarith
    have nd0: "0 \<le> ?nd" and nd1: "?nd \<le> cost_sum h s W ?V + move_cost h s W ?p"
      and nd2: "\<not> board s ?p \<le> ENEMY_BUILDER \<Longrightarrow> 1 \<le> ?nd"
      using add_movement_penalties_bounds [OF hok en _ fit] u0 u1 unfolding nd by force+
    have q: "\<forall>v \<in> set (s_Q st). pos_ok h (v_pos v) \<and> 0 \<le> s_dist st (v_pos v)
            \<and> s_dist st (v_pos v) \<le> cost_sum h s W ?V + move_cost h s W (v_pos v)"
      and w: "\<forall>p. board s p \<ge> GUN \<longrightarrow> p \<notin> ?V \<longrightarrow> 1 \<le> s_dist st p"
      and l: "\<forall>p. bonus_lookup (bonus_distances (world st)) p = bonus_lookup (bonus_distances s) p"
      using wi by (simp_all add: weapon_inv_def)
    have w': "1 \<le> ?nd" if "board s ?p \<ge> GUN"
      using that nd2 by (simp add: board_consts)
    have "weapon_inv h s W (st\<lparr>s_dist := (s_dist st)(?p := ?nd), s_Q := s_Q st @ [?v]\<rparr>)"
      unfolding weapon_inv_def using V sw l q w w' nd0 nd1 pk by auto
    then show ?thesis
      using uV u0 u1 step_neq [of u d] by (simp add: se mid_inv_def)
  qed
qed

lemma search_expand_mid:
  assumes "well_costed h s W" and "mid_inv h s W u st"
  shows "mid_inv h s W u (search_expand h W u dir0 st)"
proof -
  have "mid_inv h s W u st \<Longrightarrow> mid_inv h s W u (fold (search_edge h W u dir0) ds st)" for ds st
    by (induction ds arbitrary: st) (simp_all add: search_edge_mid [OF assms(1)])
  with assms(2) show ?thesis by (simp add: search_expand_def)
qed

lemma evaluate_mid:
  assumes wc: "well_costed h s W" and wi: "weapon_inv h s W st" and ne: "s_Q st \<noteq> []"
    and nv: "v_pos (pq_top vertex_less pick (s_Q st)) \<notin> s_visited st"
  shows "mid_inv h s W (v_pos (pq_top vertex_less pick (s_Q st)))
     (snd (evaluate h c w nh W (v_pos (pq_top vertex_less pick (s_Q st))) d
        (st\<lparr>s_Q := pq_pop vertex_less pick (s_Q st),
            s_visited := insert (v_pos (pq_top vertex_less pick (s_Q st))) (s_visited st)\<rparr>)))"
proof -
  let ?u = "v_pos (pq_top vertex_less pick (s_Q st))"
  let ?V = "s_visited st"
  let ?st2 = "st\<lparr>s_Q := pq_pop vertex_less pick (s_Q st), s_visited := insert ?u ?V\<rparr>"
  let ?e = "snd (evaluate h c w nh W ?u d ?st2)"
  have V: "?V \<subseteq> {p. pos_ok h p}" and sw: "same_world s (world st)"
    and q: "\<forall>v \<in> set (s_Q st). pos_ok h (v_pos v) \<and> 0 \<le> s_dist st (v_pos v)
            \<and> s_dist st (v_pos v) \<le> cost_sum h s W ?V + move_cost h s W (v_pos v)"
    and wp: "\<forall>p. board s p \<ge> GUN \<longrightarrow> p \<notin> ?V \<longrightarrow> 1 \<le> s_dist st p"
    and l: "\<forall>p. bonus_lookup (bonus_distances (world st)) p = bonus_lookup (bonus_distances s) p"
    using wi by (simp_all add: weapon_inv_def)
  have top: "pq_top vertex_less pick (s_Q st) \<in> set (s_Q st)"
    using ne by (rule pq_top_vertex_in)
  with q have pu: "pos_ok h ?u" and u0: "0 \<le> s_dist st ?u"
    and u1: "s_dist st ?u \<le> cost_sum h s W ?V + move_cost h s W ?u"
    by blast+
  have V': "insert ?u ?V \<subseteq> {p. pos_ok h p}"
    using V pu by simp
  have ci: "cost_sum h s W (insert ?u ?V) = cost_sum h s W ?V + move_cost h s W ?u + 4"
    using V nv by (rule cost_sum_insert)
  have tb: "cost_sum h s W (insert ?u ?V) + move_cost h s W ?u < 65535"
    using wc V' pu by (rule well_costed_bound)
  have mp: "1 \<le> move_cost h s W p" if "pos_ok h p" for p
  proof -
    have "host_ok h" and "board s p \<le> ENEMY_BUILDER \<longrightarrow> 0 \<le> board_enemy s p"
      using wc that unfolding well_costed_def by blast+
    then show ?thesis by (rule move_cost_pos)
  qed
  have bump: "to_ushort (s_dist st ?u + 4) = s_dist st ?u + 4"
    using u0 u1 ci tb mp [OF pu] by (intro to_ushort_id) linarith+
  have ed: "s_dist ?e = s_dist st \<or> s_dist ?e = (s_dist st)(?u := s_dist st ?u + 4)"
    using evaluate_dist [of h c w nh W ?u d ?st2] by (simp add: bump)
  have eq: "s_Q ?e = pq_pop vertex_less pick (s_Q st)" and ev: "s_visited ?e = insert ?u ?V"
    by simp_all
  have esw: "same_world s (world ?e)"
    using sw by (simp add: evaluate_inv)
  have el: "\<forall>p. bonus_lookup (bonus_distances (world ?e)) p = bonus_lookup (bonus_distances s) p"
    using l by (simp add: evaluate_lookup)
  have d_le: "s_dist ?e p \<le> s_dist st p + 4" and d_ge: "s_dist st p \<le> s_dist ?e p"
    and d_eq: "p \<noteq> ?u \<Longrightarrow> s_dist ?e p = s_dist st p" for p
    using ed by auto
  have eqs: "\<forall>v \<in> set (s_Q ?e). pos_ok h (v_pos v) \<and> 0 \<le> s_dist ?e (v_pos v)
            \<and> s_dist ?e (v_pos v) \<le> cost_sum h s W (insert ?u ?V) + move_cost h s W (v_pos v)"
  proof
    fix v assume "v \<in> set (s_Q ?e)"
    then have vq: "v \<in> set (s_Q st)"
      using pq_pop_subset [of vertex_less pick "s_Q st"] by (auto simp: eq)
    with q have a: "pos_ok h (v_pos v)" "0 \<le> s_dist st (v_pos v)"
      "s_dist st (v_pos v) \<le> cost_sum h s W ?V + move_cost h s W (v_pos v)"
      by blast+
    show "pos_ok h (v_pos v) \<and> 0 \<le> s_dist ?e (v_pos v)
            \<and> s_dist ?e (v_pos v) \<le> cost_sum h s W (insert ?u ?V) + move_cost h s W (v_pos v)"
      using a d_le [of "v_pos v"] d_ge [of "v_pos v"] ci mp [OF pu] by linarith
  qed
  have ew: "\<forall>p. board s p \<ge> GUN \<longrightarrow> p \<notin> s_visited ?e \<longrightarrow> 1 \<le> s_dist ?e p"
    using wp d_eq by (auto simp: ev)
  have "weapon_inv h s W ?e"
    unfolding weapon_inv_def using V' eqs ew esw el by (simp add: ev)
  moreover have "0 \<le> s_dist ?e ?u" "s_dist ?e ?u \<le> cost_sum h s W (s_visited ?e)"
    using u0 u1 d_ge [of ?u] d_le [of ?u] ci by (simp_all add: ev)
  ultimately show ?thesis
    by (simp add: mid_inv_def)
qed

lemma search_step_weapon_inv:
  assumes wc: "well_costed h s W" and wi: "weapon_inv h s W st" and ne: "s_Q st \<noteq> []"
  shows "weapon_inv h s W (search_step pick h c w nh W st)"
proof -
  let ?u = "v_pos (pq_top vertex_less pick (s_Q st))"
  let ?d = "v_dir (pq_top vertex_less pick (s_Q st))"
  let ?Q1 = "pq_pop vertex_less pick (s_Q st)"
  show ?thesis
  proof (cases "?u \<in> s_visited st")
    case True
    have "weapon_inv h s W (st\<lparr>s_Q := ?Q1\<rparr>)"
      using wi pq_pop_subset [of vertex_less pick "s_Q st"] unfolding weapon_inv_def by auto
    with True show ?thesis
      by (simp add: search_step_def Let_def)
  next
    case False
    let ?st2 = "st\<lparr>s_Q := ?Q1, s_visited := insert ?u (s_visited st)\<rparr>"
    let ?e = "evaluate h c w nh W ?u ?d ?st2"
    have step: "search_step pick h c w nh W st = (if fst ?e then snd ?e else search_expand h W ?u ?d (snd ?e))"
      using False by (simp add: search_step_def Let_def split_beta)
    have m: "mid_inv h s W ?u (snd ?e)"
      using wc wi ne False by (rule evaluate_mid)
    then have "mid_inv h s W ?u (search_expand h W ?u ?d (snd ?e))"
      using wc by (intro search_expand_mid)
    with m show ?thesis
      by (simp add: step mid_inv_def)
  qed
qed

lemma seeds_inv_push:
  assumes wc: "well_costed h s W" and si: "seeds_inv h s W origin (dist, Q)" and pk: "pos_ok h p"
  shows "seeds_inv h s W origin
     (dist(p := add_movement_penalties h s p 1 W),
      Q @ [\<lparr>v_dist = add_movement_penalties h s p 1 W, v_pos = p, v_dir = d\<rparr>])"
proof -
  have hok: "host_ok h" and en: "board s p \<le> ENEMY_BUILDER \<longrightarrow> 0 \<le> board_enemy s p"
    using wc pk unfolding well_costed_def by blast+
  have "cost_sum h s W {} + move_cost h s W p < 65535"
    using wc _ pk by (rule well_costed_bound) simp
  then have fit: "1 + move_cost h s W p - 1 < 65536"
    by (simp add: cost_sum_def)
  have a0: "0 \<le> add_movement_penalties h s p 1 W"
    and a1: "add_movement_penalties h s p 1 W \<le> move_cost h s W p"
    and a2: "\<not> board s p \<le> ENEMY_BUILDER \<Longrightarrow> 1 \<le> add_movement_penalties h s p 1 W"
    using add_movement_penalties_bounds [OF hok en _ fit] by force+
  have a3: "1 \<le> add_movement_penalties h s p 1 W" if "board s p \<ge> GUN"
    using that a2 by (simp add: board_consts)
  show ?thesis
    using si a0 a1 a3 pk unfolding seeds_inv_def by auto
qed

lemma first_moves_seeds_inv:
  assumes wc: "well_costed h s W"
  shows "first_moves h s ident w origin W ds (dist, Q) = Inr (dist', Q')
     \<Longrightarrow> seeds_inv h s W origin (dist, Q) \<Longrightarrow> seeds_inv h s W origin (dist', Q')"
proof (induction ds arbitrary: dist Q)
  case Nil
  then show ?case by (simp add: first_moves.simps)
next
  case (Cons e ds)
  let ?a = "add_movement_penalties h s (step origin e) 1 W"
  let ?v = "\<lparr>v_dist = ?a, v_pos = step origin e, v_dir = e\<rparr>"
  from Cons.prems(1) have
    "first_moves h s ident w origin W ds (dist, Q) = Inr (dist', Q')
     \<or> (pos_ok h (step origin e)
        \<and> first_moves h s ident w origin W ds (dist(step origin e := ?a), Q @ [?v]) = Inr (dist', Q'))"
    by (simp add: first_moves_Cons split: if_splits)
  then show ?case
  proof
    assume "first_moves h s ident w origin W ds (dist, Q) = Inr (dist', Q')"
    from Cons.IH [OF this Cons.prems(2)] show ?thesis .
  next
    assume a: "pos_ok h (step origin e)
        \<and> first_moves h s ident w origin W ds (dist(step origin e := ?a), Q @ [?v]) = Inr (dist', Q')"
    then have "seeds_inv h s W origin (dist(step origin e := ?a), Q @ [?v])"
      using seeds_inv_push [OF wc Cons.prems(2)] by simp
    with a Cons.IH show ?thesis by blast
  qed
qed

lemma second_moves_seeds_inv:
  assumes wc: "well_costed h s W"
  shows "seeds_inv h s W origin dq \<Longrightarrow> seeds_inv h s W origin (fold (second_move h s origin W) ds dq)"
proof (induction ds arbitrary: dq)
  case Nil
  then show ?case by simp
next
  case (Cons e ds)
  obtain dist Q where dq: "dq = (dist, Q)" by (cases dq)
  let ?a = "add_movement_penalties h s (step origin e) 1 W"
  let ?v = "\<lparr>v_dist = ?a, v_pos = step origin e, v_dir = e\<rparr>"
  have "second_move h s origin W e dq = dq
     \<or> (pos_ok h (step origin e) \<and> second_move h s origin W e dq = (dist(step origin e := ?a), Q @ [?v]))"
    by (auto simp: second_move_def dq Let_def)
  then have "seeds_inv h s W origin (second_move h s origin W e dq)"
    using Cons.prems seeds_inv_push [OF wc, of origin dist Q "step origin e" e] by (auto simp: dq)
  from Cons.IH [OF this] show ?case by simp
qed

lemma search_init_weapon_inv:
  assumes wc: "well_costed h s (my_weapon (citizen h ident))"
    and po: "pos_ok h (cit_pos (citizen h ident))"
    and si: "search_init h s ident w = Some init"
  shows "weapon_inv h s (my_weapon (citizen h ident)) init"
proof -
  let ?o = "cit_pos (citizen h ident)"
  let ?W = "my_weapon (citizen h ident)"
  let ?dinit = "(\<lambda>p. USHRT_MAX)(?o := 0)"
  from si obtain dist1 Q1 where
    f: "first_moves h s ident w ?o ?W Directions (?dinit, []) = Inr (dist1, Q1)"
    by (auto simp: search_init_def Let_def split: sum.splits)
  obtain dist2 Q2 where
    e: "(if Q1 = [] then second_moves h s ?o ?W (dist1, Q1) else (dist1, Q1)) = (dist2, Q2)"
    by (cases "if Q1 = [] then second_moves h s ?o ?W (dist1, Q1) else (dist1, Q1)") auto
  have init: "init = \<lparr>s_dist = dist2, s_visited = {?o}, s_Q = Q2, best_dir = Left,
        best_profit = INT_MIN, take_ownership = None, take_ownership_dist = 0, world = s\<rparr>"
    using si by (simp add: search_init_def Let_def f e)
  have "seeds_inv h s ?W ?o (?dinit, [])"
    by (simp add: seeds_inv_def USHRT_MAX_def)
  with f have s1: "seeds_inv h s ?W ?o (dist1, Q1)"
    by (rule first_moves_seeds_inv [OF wc])
  have s2: "seeds_inv h s ?W ?o (dist2, Q2)"
  proof (cases "Q1 = []")
    case True
    with e have "(dist2, Q2) = fold (second_move h s ?o ?W) Directions (dist1, Q1)"
      by (simp add: second_moves_def)
    with second_moves_seeds_inv [OF wc s1, of Directions] show ?thesis by simp
  next
    case False
    with e s1 show ?thesis by simp
  qed
  have "0 \<le> cost_sum h s ?W {?o}"
    using wc by (rule cost_sum_mono) (simp add: po)
  with s2 po show ?thesis
    unfolding weapon_inv_def init seeds_inv_def by fastforce
qed

lemma search_reaches_weapon_inv:
  assumes "search_reaches pick h c w nh W init st" and "well_costed h s W" and "weapon_inv h s W init"
  shows "weapon_inv h s W st"
  using assms
proof (induction rule: search_reaches.induct)
  case start
  then show ?case by simp
next
  case (turn st)
  then show ?case by (simp add: search_step_weapon_inv)
qed

lemma all_pos_product: "all_pos n m = List.product [0..n - 1] [0..m - 1]"
  by (simp add: all_pos_def product_concat_map)

lemma distinct_all_pos: "distinct (all_pos n m)"
  by (simp add: all_pos_product distinct_product)

lemma costs_fit_well_costed:
  assumes "host_ok h" and "costs_fit h s W"
  shows "well_costed h s W"
proof -
  have G: "set (all_pos (board_rows h) (board_cols h)) = {p. pos_ok h p}"
    by (auto simp: set_all_pos pos_ok_def)
  then have "cost_sum h s W {p. pos_ok h p}
      = sum_list (map (cw h s W) (all_pos (board_rows h) (board_cols h)))"
    unfolding cost_sum_def by (simp add: sum_list_distinct_conv_sum_set [OF distinct_all_pos])
  moreover have "\<forall>p. pos_ok h p \<longrightarrow> board s p \<le> ENEMY_BUILDER \<longrightarrow> 0 \<le> board_enemy s p"
    using assms(2) G unfolding costs_fit_def list_all_iff by blast
  ultimately show ?thesis
    using assms unfolding well_costed_def costs_fit_def cw_def by simp
qed

text \<open>
  C10, as the code has it. Take a state of the search loop of \<^verbatim>\<open>approach_target\<close> whose
  next vertex is a cell still to visit that holds a weapon, the record of that cell having
  the distance 0 that \<^verbatim>\<open>compute_closest\<close> leaves when it finds no entitled citizen. As long
  as no distance wraps around (\<open>costs_fit\<close>: the health recorded for every enemy is not
  negative, and twice the sum of the costs of entering the cells is below \<open>USHRT_MAX\<close>),
  the distance of the unit to that cell is at least 1, so the test on the recorded distance
  fails: the evaluation of the cell changes neither the best profit, the best direction
  and the claimed weapon, nor any distance.
\<close>

theorem unclaimed_weapon_ignored:
  assumes "host_ok h" and "pos_ok h (cit_pos (citizen h ident))"
    and "costs_fit h s (my_weapon (citizen h ident))"
    and "search_init h s ident is_warrior = Some init"
    and "search_reaches pick h (citizen h ident) is_warrior NEED_HEAL (my_weapon (citizen h ident)) init st"
    and "s_Q st \<noteq> []"
    and "v_pos (pq_top vertex_less pick (s_Q st)) \<notin> s_visited st"
    and "board s (v_pos (pq_top vertex_less pick (s_Q st))) \<ge> GUN"
    and "closest_dist (bonus_lookup (bonus_distances s) (v_pos (pq_top vertex_less pick (s_Q st)))) = 0"
  shows "let u = v_pos (pq_top vertex_less pick (s_Q st));
             d = v_dir (pq_top vertex_less pick (s_Q st));
             st2 = st\<lparr>s_Q := pq_pop vertex_less pick (s_Q st), s_visited := insert u (s_visited st)\<rparr>;
             r = evaluate h (citizen h ident) is_warrior NEED_HEAL (my_weapon (citizen h ident)) u d st2
         in 1 \<le> s_dist st u \<and> \<not> fst r \<and> best_profit (snd r) = best_profit st
            \<and> best_dir (snd r) = best_dir st \<and> take_ownership (snd r) = take_ownership st
            \<and> s_dist (snd r) = s_dist st"
proof -
  let ?W = "my_weapon (citizen h ident)"
  let ?u = "v_pos (pq_top vertex_less pick (s_Q st))"
  let ?d = "v_dir (pq_top vertex_less pick (s_Q st))"
  let ?st2 = "st\<lparr>s_Q := pq_pop vertex_less pick (s_Q st), s_visited := insert ?u (s_visited st)\<rparr>"
  have wc: "well_costed h s ?W"
    using assms(1,3) by (rule costs_fit_well_costed)
  have "weapon_inv h s ?W init"
    using wc assms(2,4) by (rule search_init_weapon_inv)
  with assms(5) wc have wi: "weapon_inv h s ?W st"
    by (rule search_reaches_weapon_inv)
  then have d1: "1 \<le> s_dist st ?u"
    and sw: "same_world s (world st)"
    and l: "bonus_lookup (bonus_distances (world st)) ?u = bonus_lookup (bonus_distances s) ?u"
    using assms(7,8) unfolding weapon_inv_def by blast+
  have b: "board (world ?st2) ?u \<ge> GUN"
    using assms(8) sw by (simp add: same_world_board)
  have c: "closest_dist (fst (bd_get ?u ?st2)) = 0"
    using assms(9) l by (simp add: bd_get_fst)
  have "evaluate h (citizen h ident) is_warrior NEED_HEAL ?W ?u ?d ?st2 = (False, snd (bd_get ?u ?st2))"
    using b c d1 by (simp add: evaluate_def Let_def split_beta board_consts)
  with d1 show ?thesis
    by (simp add: Let_def)
qed

lemmas search_eval = search_init_def search_reaches.start bonus_lookup_def costs_fit_def move_cost_def

theorem unclaimed_weapon_ignored_witness:
  "host_ok lone_gun_host \<and> pos_ok lone_gun_host (cit_pos (citizen lone_gun_host 1))
   \<and> costs_fit lone_gun_host (build_board first_top lone_gun_host (base_ai 1 3)) (my_weapon (citizen lone_gun_host 1))
   \<and> bonus_distances (build_board first_top lone_gun_host (base_ai 1 3)) (0, 2)
       = Some \<lparr>bi_type = CHR ''W'', closest_dist = 0, closest_is_friendly = False\<rparr>
   \<and> v_pos (pq_top vertex_less first_top (s_Q (search_step first_top lone_gun_host my_builder False True BUILDER
        (the (search_init lone_gun_host (build_board first_top lone_gun_host (base_ai 1 3)) 1 False))))) = (0, 2)
   \<and> s_dist (search_step first_top lone_gun_host my_builder False True BUILDER
        (the (search_init lone_gun_host (build_board first_top lone_gun_host (base_ai 1 3)) 1 False))) (0, 2) = 2"
proof -
  let ?h = lone_gun_host
  let ?s = "build_board first_top lone_gun_host (base_ai 1 3)"
  let ?init = "the (search_init ?h ?s 1 False)"
  let ?st = "search_step first_top ?h my_builder False True BUILDER ?init"
  have c: "citizen ?h 1 = my_builder" and w: "my_weapon my_builder = BUILDER"
    by (simp_all add: lone_gun_host_def example_defs my_weapon_def)
  have 1: "host_ok ?h"
    by (simp add: host_ok_def lone_gun_host_def example_defs)
  have 2: "pos_ok ?h (cit_pos (citizen ?h 1))"
    by (simp add: pos_ok_def lone_gun_host_def example_defs)
  have 3: "costs_fit ?h ?s (my_weapon (citizen ?h 1))"
    by (simp add: lone_gun_host_def example_defs build_eval closest_eval approach_eval search_eval
        USHRT_MAX_def)
  have "search_init ?h ?s 1 False \<noteq> None"
    by (simp add: lone_gun_host_def example_defs build_eval closest_eval approach_eval search_eval)
  then have 4: "search_init ?h ?s 1 False = Some ?init"
    by simp
  have q: "s_Q ?init \<noteq> []"
    by (simp add: lone_gun_host_def example_defs build_eval closest_eval approach_eval search_eval)
  have 5: "search_reaches first_top ?h (citizen ?h 1) False True (my_weapon (citizen ?h 1)) ?init ?st"
    unfolding c w using search_reaches.start q by (rule search_reaches.turn)
  have 6: "s_Q ?st \<noteq> []" and 7: "v_pos (pq_top vertex_less first_top (s_Q ?st)) \<notin> s_visited ?st"
    and 8: "board ?s (v_pos (pq_top vertex_less first_top (s_Q ?st))) \<ge> GUN"
    and 9: "closest_dist (bonus_lookup (bonus_distances ?s) (v_pos (pq_top vertex_less first_top (s_Q ?st)))) = 0"
    and 10: "v_pos (pq_top vertex_less first_top (s_Q ?st)) = (0, 2)"
    and 11: "s_dist ?st (0, 2) = 2"
    and 12: "bonus_distances ?s (0, 2) = Some \<lparr>bi_type = CHR ''W'', closest_dist = 0, closest_is_friendly = False\<rparr>"
    by (simp_all add: lone_gun_host_def example_defs build_eval closest_eval approach_eval search_eval)
  show ?thesis
    using unclaimed_weapon_ignored [OF 1 2 3 4 5 6 7 8 9] 1 2 3 10 11 12 by simp
qed

text \<open>
  C10 as the specification states it has the distance of the unit always at least 1. The
  distance is an \<^verbatim>\<open>unsigned short\<close>, and the cost of entering the cell of an enemy is its
  recorded health divided by the damage of an attack, minus 1. On \<open>wrap_host\<close> the record
  of the gun keeps its default, the recorded health of the enemy builder is negative, the
  distance of its cell is \<open>65535\<close> and that of the gun behind it wraps to 0: the gun passes
  the test on the recorded distance, becomes the target with the profit of a theft, and
  its record is taken over.
\<close>

theorem unclaimed_weapon_ignored_counterexample:
  "host_ok wrap_host \<and> pos_ok wrap_host (cit_pos (citizen wrap_host 1))
   \<and> Board (build_board first_top wrap_host (base_ai 1 3)) (0, 2) = GUN
   \<and> Board_Enemy (build_board first_top wrap_host (base_ai 1 3)) (0, 1) = - 26
   \<and> bonus_distances (build_board first_top wrap_host (base_ai 1 3)) (0, 2)
       = Some \<lparr>bi_type = CHR ''W'', closest_dist = 0, closest_is_friendly = False\<rparr>
   \<and> v_pos (pq_top vertex_less first_top (s_Q (search_step first_top wrap_host my_gun True True GUN
        (the (search_init wrap_host (build_board first_top wrap_host (base_ai 1 3)) 1 True))))) = (0, 2)
   \<and> s_dist (search_step first_top wrap_host my_gun True True GUN
        (the (search_init wrap_host (build_board first_top wrap_host (base_ai 1 3)) 1 True))) (0, 2) = 0
   \<and> approach_target first_top wrap_host (build_board first_top wrap_host (base_ai 1 3)) 1 True
       = (True, snd (approach_target first_top wrap_host (build_board first_top wrap_host (base_ai 1 3)) 1 True))
   \<and> instruction_buffer (snd (approach_target first_top wrap_host
         (build_board first_top wrap_host (base_ai 1 3)) 1 True))
      = [\<lparr>priority = 12, is_build = False, uid = 1, dir = Right\<rparr>]
   \<and> bonus_distances (snd (approach_target first_top wrap_host
         (build_board first_top wrap_host (base_ai 1 3)) 1 True)) (0, 2)
       = Some \<lparr>bi_type = CHR ''W'', closest_dist = 0, closest_is_friendly = True\<rparr>"
  by (simp add: wrap_host_def my_gun_def example_defs build_eval closest_eval approach_eval
      search_eval my_weapon_def host_ok_def pos_ok_def prod_eq_iff)

end
